theory Spec2Isabelle
  imports Complex_Main "HOL-Library.Multiset" "HOL-Library.Char_ord" "HOL-Library.List_Lexorder"
begin

section \<open>JavaScript values used by DiscoveryService\<close>

text \<open>
  This theory embeds the class \<open>DiscoveryService\<close> (the JavaScript that follows the table
  definitions in \<open>sql/schema.sql\<close>): the private methods \<open>_getBorrowedBooks\<close>,
  \<open>_getAllUserBooks\<close>, \<open>_jaccard\<close>, \<open>_scorePeers\<close>, \<open>_aggregateCandidates\<close>,
  \<open>_enrichAndRank\<close>, \<open>_coldStartFallback\<close>, \<open>_deweyFallback\<close> and \<open>_deweyCategory\<close> under
  their names without the leading underscore, and the public methods \<open>getRecommendations\<close>
  and \<open>getReadingDNA\<close>.

  Every method that awaits a query is modelled on the tables themselves.  A call of a value
  that is not a function, a read of a property of \<open>undefined\<close> and a statement that the
  server rejects end a call with an error value.  Failures of the connection are not
  modelled.
\<close>

datatype error = TypeError | SqlSyntaxError

subsection \<open>Sets\<close>

text \<open>
  A JavaScript \<open>Set\<close> of identifiers is the list of its elements in insertion order; such
  a list never repeats an element (\<open>distinct\<close>).  \<open>size\<close> is \<open>length\<close>, \<open>has\<close> is
  membership and \<open>add\<close> appends an element that is not yet present.
\<close>

definition has :: "'a list \<Rightarrow> 'a \<Rightarrow> bool" where
  "has s x = (x \<in> set s)"

definition add :: "'a list \<Rightarrow> 'a \<Rightarrow> 'a list" where
  "add s x = (if has s x then s else s @ [x])"

definition new_Set :: "'a list \<Rightarrow> 'a list" where
  "new_Set xs = foldl add [] xs"

subsection \<open>Numbers\<close>

text \<open>
  A finite JavaScript number is a double: zero, or a rational \<open>m * 2^e\<close> with an integer
  \<open>m\<close> of at most 53 bits and \<open>- 1074 \<le> e\<close>.  It is modelled by that rational; the two
  zeros are one value, which the service cannot tell apart (it prints numbers with
  \<open>toFixed\<close> and \<open>String\<close>, compares and subtracts them).

  \<open>+\<close>, \<open>-\<close>, \<open>*\<close> and \<open>/\<close> yield the exact result rounded to the nearest double, a
  tie going to the double with the even significand.  \<open>bits n\<close> is the length of the
  binary numeral of \<open>n\<close>, and \<open>ilog2 x\<close> the exponent of the greatest power of two that
  is at most the positive rational \<open>x\<close>; below \<open>2^-1022\<close> the doubles are spaced
  \<open>2^-1074\<close> apart.  The service adds at most \<open>MAX_PEERS\<close> scores between 0 and 1 and
  takes percentages, far below \<open>2^1024\<close> where a result becomes \<open>Infinity\<close>; only
  \<open>parseFloat\<close>, which reads any numeral, yields infinities.
\<close>

fun bits :: "nat \<Rightarrow> nat" where
  "bits n = (if n = 0 then 0 else Suc (bits (n div 2)))"

declare bits.simps [simp del]

definition ilog2 :: "rat \<Rightarrow> int" where
  "ilog2 x =
     (if 1 \<le> x then int (bits (nat \<lfloor>x\<rfloor>)) - 1
      else - int (bits (nat (\<lceil>1 / x\<rceil> - 1))))"

definition roundHalfEven :: "rat \<Rightarrow> int" where
  "roundHalfEven x =
     (let f = \<lfloor>x\<rfloor>;
          r = x - of_int f
      in if r < 1 / 2 then f
         else if 1 / 2 < r then f + 1
         else if even f then f else f + 1)"

definition roundDouble :: "rat \<Rightarrow> rat" where
  "roundDouble x =
     (if x = 0 then 0
      else
        let e = max (ilog2 \<bar>x\<bar>) (- 1022);
            u = 2 powi (e - 52)
        in sgn x * of_int (roundHalfEven (\<bar>x\<bar> / u)) * u)"

definition fadd :: "rat \<Rightarrow> rat \<Rightarrow> rat" where
  "fadd x y = roundDouble (x + y)"

definition fsub :: "rat \<Rightarrow> rat \<Rightarrow> rat" where
  "fsub x y = roundDouble (x - y)"

definition fmul :: "rat \<Rightarrow> rat \<Rightarrow> rat" where
  "fmul x y = roundDouble (x * y)"

definition fdiv :: "rat \<Rightarrow> rat \<Rightarrow> rat" where
  "fdiv x y = roundDouble (x / y)"

text \<open>
  The value of \<open>parseFloat\<close>: not a number, an infinity, or a finite number.
\<close>

datatype number = NaN | PosInfinity | NegInfinity | Finite rat

subsection \<open>Strings\<close>

text \<open>
  A JavaScript string is the list of its UTF-16 code units, numbers below \<open>2^16\<close>.  The
  strings that the store holds and that the service writes are lists of 8-bit characters;
  \<open>codeUnits\<close> gives the code units of such a string.  The white space that
  \<open>parseFloat\<close> skips is the white space and the line terminators of ECMAScript: tab,
  line feed, vertical tab, form feed, carriage return, space, no-break space, the other
  space separators of Unicode, the line and paragraph separators and the byte order mark.
\<close>

definition codeUnits :: "string \<Rightarrow> nat list" where
  "codeUnits s = map of_char s"

definition isDigit :: "nat \<Rightarrow> bool" where
  "isDigit c = (of_char CHR ''0'' \<le> c \<and> c \<le> of_char CHR ''9'')"

definition isWhiteSpace :: "nat \<Rightarrow> bool" where
  "isWhiteSpace c =
     (c \<in> set [0x0009, 0x000A, 0x000B, 0x000C, 0x000D, 0x0020, 0x00A0, 0x1680,
                0x2000, 0x2001, 0x2002, 0x2003, 0x2004, 0x2005, 0x2006, 0x2007, 0x2008,
                0x2009, 0x200A, 0x2028, 0x2029, 0x202F, 0x205F, 0x3000, 0xFEFF])"

definition digitValue :: "nat \<Rightarrow> nat" where
  "digitValue c = c - of_char CHR ''0''"

definition decimalValue :: "nat list \<Rightarrow> nat" where
  "decimalValue ds = foldl (\<lambda>n c. 10 * n + digitValue c) 0 ds"

definition signPart :: "nat list \<Rightarrow> bool \<times> nat list" where
  "signPart s =
     (case s of
        [] \<Rightarrow> (False, [])
      | c # t \<Rightarrow>
          if c = of_char CHR ''-'' then (True, t)
          else if c = of_char CHR ''+'' then (False, t)
          else (False, s))"

definition exponentPart :: "nat list \<Rightarrow> int" where
  "exponentPart r =
     (case r of
        [] \<Rightarrow> 0
      | c # r' \<Rightarrow>
          if c = of_char CHR ''e'' \<or> c = of_char CHR ''E'' then
            (let (neg, r'') = signPart r';
                 ds = takeWhile isDigit r''
             in if ds = [] then 0
                else if neg then - int (decimalValue ds) else int (decimalValue ds))
          else 0)"

definition scale10 :: "rat \<Rightarrow> int \<Rightarrow> rat" where
  "scale10 m e = (if 0 \<le> e then m * 10 ^ nat e else m / 10 ^ nat (- e))"

text \<open>
  \<open>parseFloat\<close> skips leading white space and reads the longest prefix that is a decimal
  literal: an optional sign, then \<open>Infinity\<close>, or digits with an optional fraction and an
  optional exponent.  Whatever follows is ignored; with no such prefix the result is
  \<open>NaN\<close>.  The result is the double nearest to the number the literal denotes, and an
  infinity when that number rounds to \<open>2^1024\<close> or beyond.
\<close>

definition parseFloat :: "nat list \<Rightarrow> number" where
  "parseFloat str =
     (let (neg, u) = signPart (dropWhile isWhiteSpace str)
      in if take 8 u = codeUnits ''Infinity'' then (if neg then NegInfinity else PosInfinity)
         else
           let ip = takeWhile isDigit u;
               r1 = dropWhile isDigit u;
               (fp, r2) =
                 (case r1 of
                    [] \<Rightarrow> ([], r1)
                  | c # t \<Rightarrow>
                      if c = of_char CHR ''.'' then (takeWhile isDigit t, dropWhile isDigit t)
                      else ([], r1))
           in if ip = [] \<and> fp = [] then NaN
              else
                let m = of_nat (decimalValue (ip @ fp)) / 10 ^ length fp;
                    v = roundDouble (scale10 m (exponentPart r2))
                in if 2 ^ 1024 \<le> v then (if neg then NegInfinity else PosInfinity)
                   else Finite (if neg then - v else v))"

fun digits :: "nat \<Rightarrow> string" where
  "digits n =
     (if n < 10 then [''0123456789'' ! n]
      else digits (n div 10) @ [''0123456789'' ! (n mod 10)])"

declare digits.simps [simp del]

text \<open>
  \<open>String(n)\<close> for an integer \<open>n\<close>: decimal digits below \<open>10^21\<close>, and from there
  on the exponent form: one digit, then a point and more digits unless the exponent mark
  follows at once.  JavaScript writes the fewest significant digits that identify the
  double, and zeros after them; \<open>String_nat\<close> writes the digits of \<open>n\<close> itself.  The
  two agree on every integer below \<open>2^53\<close>, and below \<open>10^21\<close> on the first three
  characters (a numeral of three digits followed by zeros is itself a double there), which
  are all that the service keeps; in the exponent form the first three characters are
  never three digits.
\<close>

definition String_nat :: "nat \<Rightarrow> string" where
  "String_nat n =
     (if n < 10 ^ 21 then digits n
      else
        let ds = digits n;
            sig = rev (dropWhile (\<lambda>c. c = CHR ''0'') (rev ds))
        in (case sig of
              [] \<Rightarrow> []
            | c # cs \<Rightarrow> if cs = [] then [c] else c # CHR ''.'' # cs)
           @ ''e+'' @ digits (length ds - 1))"

definition String_floor :: "number \<Rightarrow> string" where
  "String_floor num =
     (case num of
        NaN \<Rightarrow> ''NaN''
      | PosInfinity \<Rightarrow> ''Infinity''
      | NegInfinity \<Rightarrow> ''-Infinity''
      | Finite q \<Rightarrow>
          (if \<lfloor>q\<rfloor> < 0 then CHR ''-'' # String_nat (nat (- \<lfloor>q\<rfloor>))
           else String_nat (nat \<lfloor>q\<rfloor>)))"

definition padStart :: "nat \<Rightarrow> char \<Rightarrow> string \<Rightarrow> string" where
  "padStart n c s = replicate (n - length s) c @ s"

text \<open>
  \<open>x.toFixed(f)\<close> for \<open>|x| < 10^21\<close>: the integer \<open>n\<close> with \<open>n / 10^f\<close> nearest to
  \<open>|x|\<close> (the larger one on a tie), written with \<open>f\<close> digits after the point.
\<close>

definition toFixed :: "nat \<Rightarrow> rat \<Rightarrow> string" where
  "toFixed f x =
     (let n = nat \<lfloor>\<bar>x\<bar> * 10 ^ f + 1 / 2\<rfloor>;
          ds = digits n;
          m = replicate (Suc f - length ds) CHR ''0'' @ ds;
          k = length m - f
      in (if x < 0 then ''-'' else []) @ take k m @ (if f = 0 then [] else CHR ''.'' # drop k m))"

subsection \<open>Arrays, maps and objects\<close>

text \<open>
  \<open>Array.prototype.sort\<close> with a comparison function: a stable sort that puts \<open>a\<close> before
  \<open>b\<close> when \<open>cmp a b\<close> is negative and keeps the input order of elements that compare
  equal.  It is modelled by insertion from the right end of the array.
\<close>

fun insort_cmp :: "('a \<Rightarrow> 'a \<Rightarrow> rat) \<Rightarrow> 'a \<Rightarrow> 'a list \<Rightarrow> 'a list" where
  "insort_cmp cmp x [] = [x]"
| "insort_cmp cmp x (y # ys) =
     (if cmp x y \<le> 0 then x # y # ys else y # insort_cmp cmp x ys)"

definition array_sort :: "('a \<Rightarrow> 'a \<Rightarrow> rat) \<Rightarrow> 'a list \<Rightarrow> 'a list" where
  "array_sort cmp xs = foldr (insort_cmp cmp) xs []"

text \<open>
  A JavaScript \<open>Map\<close>, and the own properties of a plain object, are the list of the
  \<open>(key, value)\<close> pairs in insertion order, each key once: \<open>set\<close>, or an assignment to a
  property, replaces the value of a present key in place and appends a new key.
\<close>

definition Map_has :: "('k \<times> 'v) list \<Rightarrow> 'k \<Rightarrow> bool" where
  "Map_has m k = (map_of m k \<noteq> None)"

definition Map_get :: "('k \<times> 'v) list \<Rightarrow> 'k \<Rightarrow> 'v option" where
  "Map_get m k = map_of m k"

definition Map_set :: "('k \<times> 'v) list \<Rightarrow> 'k \<Rightarrow> 'v \<Rightarrow> ('k \<times> 'v) list" where
  "Map_set m k v =
     (if Map_has m k then map (\<lambda>(k', v'). if k' = k then (k', v) else (k', v')) m
      else m @ [(k, v)])"

text \<open>
  A read \<open>obj[key]\<close> of an object created by \<open>{}\<close> finds an own property, or a property
  that the object inherits from \<open>Object.prototype\<close>, or nothing.  Every inherited
  property is a function, or, for \<open>__proto__\<close>, the prototype itself: a value that is
  true in a condition and has no method \<open>add\<close>.
\<close>

datatype 'v property = Own 'v | Inherited | Absent

definition objectPrototypeKeys :: "string list" where
  "objectPrototypeKeys =
     [''constructor'', ''__defineGetter__'', ''__defineSetter__'', ''hasOwnProperty'',
      ''__lookupGetter__'', ''__lookupSetter__'', ''isPrototypeOf'', ''propertyIsEnumerable'',
      ''toString'', ''valueOf'', ''__proto__'', ''toLocaleString'']"

definition Object_get :: "(string \<times> 'v) list \<Rightarrow> string \<Rightarrow> 'v property" where
  "Object_get obj key =
     (case map_of obj key of
        Some v \<Rightarrow> Own v
      | None \<Rightarrow> if key \<in> set objectPrototypeKeys then Inherited else Absent)"

text \<open>
  \<open>Object.entries\<close> lists the keys that are array indices (the numerals of the integers
  from 0 to \<open>2^32 - 2\<close>, without a sign or a leading zero) first, in ascending numeric
  order, and then the other keys in the order in which they were created.
\<close>

definition isArrayIndex :: "string \<Rightarrow> bool" where
  "isArrayIndex key =
     (let ds = codeUnits key
      in ds \<noteq> [] \<and> list_all isDigit ds \<and>
         (if hd ds = of_char CHR ''0'' then length ds = 1 else True) \<and>
         decimalValue ds \<le> 4294967294)"

definition Object_entries :: "(string \<times> 'v) list \<Rightarrow> (string \<times> 'v) list" where
  "Object_entries obj =
     sort_key (\<lambda>(k, v). decimalValue (codeUnits k)) (filter (\<lambda>(k, v). isArrayIndex k) obj)
       @ filter (\<lambda>(k, v). \<not> isArrayIndex k) obj"

section \<open>Jaccard similarity\<close>

text \<open>
  The two counts are integers far below \<open>2^53\<close>, which doubles hold exactly; the quotient
  is rounded.
\<close>

definition jaccard :: "'a list \<Rightarrow> 'a list \<Rightarrow> rat" where
  "jaccard setA setB =
     (if length setA = 0 \<and> length setB = 0 then 0
      else
        let (smaller, larger) =
              (if length setA \<le> length setB then (setA, setB) else (setB, setA));
            intersectionCount =
              foldl (\<lambda>c item. if has larger item then c + 1 else c) (0::int) smaller;
            unionCount = int (length setA) + int (length setB) - intersectionCount
        in fdiv (of_int intersectionCount) (of_int unionCount))"

section \<open>Peer scoring\<close>

record ('u, 'b) peer =
  peerId :: 'u
  score :: rat
  books :: "'b list"

text \<open>
  The argument \<open>allUserBooks\<close> is a plain object, given by its own properties in the order
  of their creation; the loop runs over \<open>Object.entries\<close> of it.
\<close>

definition scorePeers ::
  "'b list \<Rightarrow> (string \<times> 'b list) list \<Rightarrow> rat \<Rightarrow> (string, 'b) peer list" where
  "scorePeers targetBooks allUserBooks minScore =
     (let scored =
            foldl (\<lambda>acc (pid, peerBooks).
                     let sc = jaccard targetBooks peerBooks
                     in if sc \<ge> minScore
                        then acc @ [\<lparr>peerId = pid, score = sc, books = peerBooks\<rparr>]
                        else acc)
                  [] (Object_entries allUserBooks)
      in array_sort (\<lambda>a b. fsub (score b) (score a)) scored)"

section \<open>Candidate aggregation\<close>

record 'u candidate =
  weightedScore :: rat
  recommendedBy :: "'u list"

text \<open>
  The body of the inner loop of \<open>_aggregateCandidates\<close> for one book of one peer \<open>p\<close>
  (the source destructures \<open>p\<close> into \<open>peerId\<close>, \<open>score\<close> and \<open>books\<close>).  The entry read
  by \<open>candidates.get\<close> is the one just created when the book was absent, so the branch
  \<open>None\<close> is never taken.
\<close>

definition addCandidate ::
  "'b list \<Rightarrow> ('u, 'b) peer \<Rightarrow> ('b \<times> 'u candidate) list \<Rightarrow> 'b \<Rightarrow> ('b \<times> 'u candidate) list" where
  "addCandidate targetBooks p candidates bookId =
     (if has targetBooks bookId then candidates
      else
        let candidates' =
              (if \<not> Map_has candidates bookId
               then Map_set candidates bookId \<lparr>weightedScore = 0, recommendedBy = []\<rparr>
               else candidates)
        in case Map_get candidates' bookId of
             None \<Rightarrow> candidates'
           | Some entry \<Rightarrow>
               Map_set candidates' bookId
                 (entry\<lparr>weightedScore := fadd (weightedScore entry) (score p),
                        recommendedBy := recommendedBy entry @ [peerId p]\<rparr>))"

definition aggregateCandidates ::
  "('u, 'b) peer list \<Rightarrow> 'b list \<Rightarrow> ('b \<times> 'u candidate) list" where
  "aggregateCandidates peers targetBooks =
     foldl (\<lambda>candidates p. foldl (addCandidate targetBooks p) candidates (books p)) [] peers"

section \<open>Dewey category resolver\<close>

text \<open>
  A comparison \<open>num < k\<close> of the parsed number with a finite threshold; it is false for
  \<open>NaN\<close>.
\<close>

definition less_number :: "number \<Rightarrow> rat \<Rightarrow> bool" where
  "less_number num k =
     (case num of
        NaN \<Rightarrow> False
      | PosInfinity \<Rightarrow> False
      | NegInfinity \<Rightarrow> True
      | Finite q \<Rightarrow> q < k)"

definition specific :: "(string \<times> string) list" where
  "specific =
     [(''005'', ''Technology & Computer Science''),
      (''153'', ''Cognitive Psychology''),
      (''155'', ''Developmental Psychology''),
      (''158'', ''Applied Psychology & Self-Help''),
      (''302'', ''Social Influences & Behaviour''),
      (''332'', ''Finance & Economics''),
      (''658'', ''Business & Management''),
      (''745'', ''Design & Decorative Arts''),
      (''909'', ''World History''),
      (''921'', ''Biography & Memoir'')]"

definition deweyCategory :: "nat list \<Rightarrow> string" where
  "deweyCategory dewey =
     (let num = parseFloat dewey;
          prefix = take 3 (padStart 3 CHR ''0'' (String_floor num))
      in case map_of specific prefix of
           Some label \<Rightarrow> label
         | None \<Rightarrow>
             if less_number num 100 then ''General & Computer Science''
             else if less_number num 200 then ''Philosophy & Psychology''
             else if less_number num 300 then ''Religion & Theology''
             else if less_number num 400 then ''Social Sciences''
             else if less_number num 500 then ''Language & Linguistics''
             else if less_number num 600 then ''Pure Science''
             else if less_number num 700 then ''Applied Science & Technology''
             else if less_number num 800 then ''Arts & Recreation''
             else if less_number num 900 then ''Literature''
             else ''History, Geography & Biography'')"

section \<open>The store\<close>

text \<open>
  The tables of \<open>schema.sql\<close> that the service reads, each as the list of its rows.
  Identifiers, titles and codes are strings.  SQL equality on them is equality of strings
  (every value is stored in one spelling, so the case-insensitive collation of the schema
  identifies nothing more), \<open>ORDER BY user_id\<close> is the order of strings, and rows that an
  \<open>ORDER BY\<close> leaves tied keep their table order.
\<close>

record book =
  book_id :: string
  title :: string
  author :: string
  dewey_decimal :: string

record user =
  user_id :: string
  user_name :: string

record loan =
  loan_id :: string
  loan_user_id :: string
  loan_book_id :: string
  borrowed_at :: string

record db =
  books_table :: "book list"
  users_table :: "user list"
  loans_table :: "loan list"

text \<open>
  \<open>GROUP BY key\<close> with \<open>COUNT\<close>: one row per key, in the order the keys first occur,
  carrying the first row of the group and the number of rows in it.
\<close>

fun group_count :: "('r \<Rightarrow> 'k) \<Rightarrow> 'r list \<Rightarrow> ('r \<times> nat) list" where
  "group_count key [] = []"
| "group_count key (r # rs) =
     (r, Suc (length (filter (\<lambda>r'. key r' = key r) rs)))
       # group_count key (filter (\<lambda>r'. key r' \<noteq> key r) rs)"

definition order_by_count_desc :: "('r \<times> nat) list \<Rightarrow> ('r \<times> nat) list" where
  "order_by_count_desc rows = sort_key (\<lambda>(r, n). - int n) rows"

definition getBorrowedBooks :: "db \<Rightarrow> string \<Rightarrow> string list" where
  "getBorrowedBooks d uid =
     (let rows = filter (\<lambda>l. loan_user_id l = uid) (loans_table d)
      in new_Set (map loan_book_id rows))"

text \<open>
  The callback of \<open>rows.reduce\<close> in \<open>_getAllUserBooks\<close>, for the object \<open>map\<close> built
  so far and one row.  When \<open>map[user_id]\<close> is nothing, a new \<open>Set\<close> is stored under the
  key.  Then \<open>map[user_id].add\<close> is called: on the reader's \<open>Set\<close>, or, when the
  identifier names a property of \<open>Object.prototype\<close>, on a value without such a method,
  which throws.
\<close>

definition groupRow ::
  "(string \<times> string list) list \<Rightarrow> loan \<Rightarrow> error + (string \<times> string list) list" where
  "groupRow m row =
     (let m' = (case Object_get m (loan_user_id row) of
                  Absent \<Rightarrow> Map_set m (loan_user_id row) []
                | Own books' \<Rightarrow> m
                | Inherited \<Rightarrow> m)
      in case Object_get m' (loan_user_id row) of
           Own books' \<Rightarrow> Inr (Map_set m' (loan_user_id row) (add books' (loan_book_id row)))
         | Inherited \<Rightarrow> Inl TypeError
         | Absent \<Rightarrow> Inl TypeError)"

definition getAllUserBooks :: "db \<Rightarrow> string \<Rightarrow> error + (string \<times> string list) list" where
  "getAllUserBooks d excludeUserId =
     (let rows = sort_key loan_user_id
                   (filter (\<lambda>l. loan_user_id l \<noteq> excludeUserId) (loans_table d))
      in foldl (\<lambda>acc row. case acc of Inl e \<Rightarrow> Inl e | Inr m \<Rightarrow> groupRow m row)
           (Inr []) rows)"

section \<open>Recommendations\<close>

definition MIN_SIMILARITY :: rat where
  "MIN_SIMILARITY = roundDouble (1 / 10)"

definition MAX_PEERS :: nat where
  "MAX_PEERS = 50"

definition MAX_RESULTS :: nat where
  "MAX_RESULTS = 10"

text \<open>
  A \<open>RecommendationResult\<close>; the property \<open>fallback\<close> is absent on the primary path.
  The argument \<open>opts\<close> has two optional properties; a limit is a number of rows.
\<close>

record recommendation = book +
  match_score :: rat
  recommended_by :: "string list"
  fallback :: "string option"

record opts =
  opts_limit :: "nat option"
  opts_minScore :: "rat option"

text \<open>
  \<open>parseFloat(weightedScore.toFixed(4))\<close>.  \<open>parseFloat\<close> reads back a finite number from
  every string that \<open>toFixed\<close> writes for a number below \<open>10^21\<close> (\<open>roundedScore_value\<close>
  below), so the last case is not taken for a weighted score.
\<close>

definition roundedScore :: "rat \<Rightarrow> rat" where
  "roundedScore weighted =
     (case parseFloat (codeUnits (toFixed 4 weighted)) of Finite q \<Rightarrow> q | _ \<Rightarrow> 0)"

text \<open>
  \<open>a.localeCompare(b)\<close> compares by the collation of the runtime; the collation is a
  parameter of the model, given by its sort key \<open>ckey\<close>.
\<close>

definition localeCompare :: "(string \<Rightarrow> 'k::linorder) \<Rightarrow> string \<Rightarrow> string \<Rightarrow> rat" where
  "localeCompare ckey a b = (if ckey a < ckey b then - 1 else if ckey b < ckey a then 1 else 0)"

text \<open>
  The comparison function of the ranking: \<open>x || y\<close> is \<open>y\<close> when the difference \<open>x\<close> is
  zero.
\<close>

definition rankCompare ::
  "(string \<Rightarrow> 'k::linorder) \<Rightarrow> recommendation \<Rightarrow> recommendation \<Rightarrow> rat" where
  "rankCompare ckey a b =
     (if fsub (match_score b) (match_score a) \<noteq> 0 then fsub (match_score b) (match_score a)
      else localeCompare ckey (title a) (title b))"

text \<open>
  The mapping of the rows of the metadata query to results.  Destructuring the value of
  \<open>candidates.get\<close> throws when the key is absent.
\<close>

fun enrich :: "(string \<times> string candidate) list \<Rightarrow> book list \<Rightarrow> error + recommendation list" where
  "enrich candidates [] = Inr []"
| "enrich candidates (b # bs) =
     (case Map_get candidates (book_id b) of
        None \<Rightarrow> Inl TypeError
      | Some entry \<Rightarrow>
          (case enrich candidates bs of
             Inl e \<Rightarrow> Inl e
           | Inr results \<Rightarrow>
               Inr (\<lparr>book_id = book_id b, title = title b, author = author b,
                     dewey_decimal = dewey_decimal b,
                     match_score = roundedScore (weightedScore entry),
                     recommended_by = recommendedBy entry,
                     fallback = None\<rparr> # results)))"

definition enrichAndRank ::
  "(string \<Rightarrow> 'k::linorder) \<Rightarrow> db \<Rightarrow> (string \<times> string candidate) list \<Rightarrow> nat
     \<Rightarrow> error + recommendation list" where
  "enrichAndRank ckey d candidates limit =
     (if length candidates = 0 then Inr []
      else
        let bookIds = map fst candidates;
            rows = filter (\<lambda>b. book_id b \<in> set bookIds) (books_table d)
        in case enrich candidates rows of
             Inl e \<Rightarrow> Inl e
           | Inr results \<Rightarrow> Inr (take limit (array_sort (rankCompare ckey) results)))"

text \<open>
  The two fallback queries.  Each joins books to their loans, groups by the book and
  counts the joined rows; the category query first pairs every book \<open>b1\<close> the reader has
  borrowed with the books \<open>b2\<close> of the same code that the reader has not borrowed.  An
  empty id list makes the statement text end in \<open>IN ()\<close>, which the server rejects.
\<close>

definition fallbackRow :: "string \<Rightarrow> book \<Rightarrow> recommendation" where
  "fallbackRow tag r =
     \<lparr>book_id = book_id r, title = title r, author = author r,
      dewey_decimal = dewey_decimal r,
      match_score = 0, recommended_by = [], fallback = Some tag\<rparr>"

definition coldStartFallback :: "db \<Rightarrow> string \<Rightarrow> nat \<Rightarrow> recommendation list" where
  "coldStartFallback d uid limit =
     (let joined = [(b, l). b \<leftarrow> books_table d, l \<leftarrow> loans_table d,
                            loan_book_id l = book_id b];
          rows = take limit
                   (order_by_count_desc (group_count (\<lambda>(b, l). book_id b) joined))
      in map (\<lambda>((b, l), borrow_count). fallbackRow ''cold_start_popularity'' b) rows)"

definition deweyFallback ::
  "db \<Rightarrow> string \<Rightarrow> string list \<Rightarrow> nat \<Rightarrow> error + recommendation list" where
  "deweyFallback d uid targetBooks limit =
     (let bookIdList = targetBooks
      in if bookIdList = [] then Inl SqlSyntaxError
         else
           let joined = [(b1, b2, l).
                           b1 \<leftarrow> books_table d,
                           b2 \<leftarrow> books_table d,
                           dewey_decimal b2 = dewey_decimal b1 \<and> book_id b2 \<notin> set bookIdList,
                           l \<leftarrow> loans_table d,
                           loan_book_id l = book_id b2,
                           book_id b1 \<in> set bookIdList];
               rows = take limit
                        (order_by_count_desc
                           (group_count (\<lambda>(b1, b2, l). book_id b2) joined))
           in Inr (map (\<lambda>((b1, b2, l), borrow_count).
                          fallbackRow ''dewey_category_popularity'' b2) rows))"

text \<open>
  The options of \<open>getRecommendations\<close>: \<open>opts.limit ?? MAX_RESULTS\<close> and
  \<open>opts.minScore ?? MIN_SIMILARITY\<close>; an absent option is \<open>None\<close>.
\<close>

definition limitOf :: "opts \<Rightarrow> nat" where
  "limitOf options = (case opts_limit options of None \<Rightarrow> MAX_RESULTS | Some n \<Rightarrow> n)"

definition minScoreOf :: "opts \<Rightarrow> rat" where
  "minScoreOf options = (case opts_minScore options of None \<Rightarrow> MIN_SIMILARITY | Some m \<Rightarrow> m)"

text \<open>
  An error of \<open>_getAllUserBooks\<close> ends the call; \<open>Object.keys(allUserBooks).length\<close> is
  the number of own properties.
\<close>

definition getRecommendations ::
  "(string \<Rightarrow> 'k::linorder) \<Rightarrow> db \<Rightarrow> string \<Rightarrow> opts \<Rightarrow> error + recommendation list" where
  "getRecommendations ckey d uid options =
     (let limit = limitOf options;
          minScore = minScoreOf options;
          targetBooks = getBorrowedBooks d uid
      in if length targetBooks = 0 then Inr (coldStartFallback d uid limit)
         else
           case getAllUserBooks d uid of
             Inl e \<Rightarrow> Inl e
           | Inr allUserBooks \<Rightarrow>
               if length allUserBooks = 0 then Inr []
               else
                 let peers = scorePeers targetBooks allUserBooks minScore
                 in if length peers = 0 then deweyFallback d uid targetBooks limit
                    else
                      let candidates = aggregateCandidates (take MAX_PEERS peers) targetBooks
                      in enrichAndRank ckey d candidates limit)"

section \<open>Reading DNA\<close>

record dna_entry =
  category :: string
  dewey :: string
  entry_count :: nat
  percentage :: string

record reading_dna =
  userId :: string
  name :: string
  totalBooks :: nat
  breakdown :: "dna_entry list"
  summary :: string

fun join :: "string \<Rightarrow> string list \<Rightarrow> string" where
  "join sep [] = []"
| "join sep [x] = x"
| "join sep (x # y # ys) = x @ sep @ join sep (y # ys)"

text \<open>The rows of the query of \<open>getReadingDNA\<close>: \<open>(name, dewey_decimal, book_count)\<close>.\<close>

definition readingRows :: "db \<Rightarrow> string \<Rightarrow> (string \<times> string \<times> nat) list" where
  "readingRows d uid =
     (let joined = [(u, l, b).
                      u \<leftarrow> users_table d,
                      l \<leftarrow> loans_table d,
                      loan_user_id l = user_id u,
                      b \<leftarrow> books_table d,
                      book_id b = loan_book_id l,
                      user_id u = uid]
      in map (\<lambda>((u, l, b), book_count). (user_name u, dewey_decimal b, book_count))
           (order_by_count_desc (group_count (\<lambda>(u, l, b). dewey_decimal b) joined)))"

definition getReadingDNA :: "db \<Rightarrow> string \<Rightarrow> reading_dna" where
  "getReadingDNA d uid =
     (let rows = readingRows d uid
      in case rows of
           [] \<Rightarrow>
             \<lparr>userId = uid, name = ''Unknown'', totalBooks = 0, breakdown = [],
              summary = ''No reading history found.''\<rparr>
         | (userName, r) # rest \<Rightarrow>
             let total = foldl (\<lambda>sum (n, dw, book_count). sum + book_count) 0 rows;
                 entries =
                   map (\<lambda>(n, dw, book_count).
                          \<lparr>category = deweyCategory (codeUnits dw), dewey = dw,
                           entry_count = book_count,
                           percentage =
                             toFixed 2 (fmul (fdiv (of_nat book_count) (of_nat total)) 100)
                               @ ''%''\<rparr>)
                       rows
             in \<lparr>userId = uid, name = userName, totalBooks = total, breakdown = entries,
                 summary = join '', '' (map (\<lambda>e. percentage e @ '' '' @ category e) entries)\<rparr>)"

section \<open>Auxiliary notions for the proofs\<close>

text \<open>
  The exponent that \<open>roundDouble\<close> works with, and the values that are integer multiples
  of the least positive double; every double is one.
\<close>

definition exponentOf :: "rat \<Rightarrow> int" where
  "exponentOf x = max (ilog2 \<bar>x\<bar>) (- 1022)"

definition onGrid :: "rat \<Rightarrow> bool" where
  "onGrid x = (\<exists>k. x = of_int k * 2 powi (- 1074))"

text \<open>
  The number of common elements that \<open>jaccard\<close> counts, the peers that contribute a book,
  and the entry the aggregator is expected to hold for a book.
\<close>

definition inter_count :: "'a list \<Rightarrow> 'a list \<Rightarrow> nat" where
  "inter_count A B =
     (if length A \<le> length B then length (filter (has B) A) else length (filter (has A) B))"

definition contributors :: "('u, 'b) peer list \<Rightarrow> 'b \<Rightarrow> ('u, 'b) peer list" where
  "contributors peers b = filter (\<lambda>p. has (books p) b) peers"

definition expected :: "('u, 'b) peer list \<Rightarrow> 'b list \<Rightarrow> 'b \<Rightarrow> 'u candidate option" where
  "expected peers targetBooks b =
     (if has targetBooks b \<or> contributors peers b = [] then None
      else Some \<lparr>weightedScore = foldl fadd 0 (map score (contributors peers b)),
                 recommendedBy = map peerId (contributors peers b)\<rparr>)"

definition bump :: "('u, 'b) peer \<Rightarrow> 'u candidate option \<Rightarrow> 'u candidate" where
  "bump p eo =
     (case eo of
        None \<Rightarrow> \<lparr>weightedScore = fadd 0 (score p), recommendedBy = [peerId p]\<rparr>
      | Some e \<Rightarrow> \<lparr>weightedScore = fadd (weightedScore e) (score p),
                    recommendedBy = recommendedBy e @ [peerId p]\<rparr>)"

definition scoredPeer :: "'b list \<Rightarrow> 'u \<times> 'b list \<Rightarrow> ('u, 'b) peer" where
  "scoredPeer targetBooks e =
     \<lparr>peerId = fst e, score = jaccard targetBooks (snd e), books = snd e\<rparr>"

text \<open>
  A string begins with a number when, after the leading white space and an optional sign,
  it goes on with the word \<open>Infinity\<close>, with a digit, or with a point and a digit.
\<close>

definition beginsWithNumber :: "nat list \<Rightarrow> bool" where
  "beginsWithNumber s =
     (let t = dropWhile isWhiteSpace s;
          u = (case t of
                 [] \<Rightarrow> []
               | c # r \<Rightarrow> if c = of_char CHR ''+'' \<or> c = of_char CHR ''-'' then r else t)
      in take 8 u = codeUnits ''Infinity'' \<or>
         (case u of
            [] \<Rightarrow> False
          | c # r \<Rightarrow>
              isDigit c \<or>
              (c = of_char CHR ''.'' \<and> (case r of [] \<Rightarrow> False | d # r' \<Rightarrow> isDigit d))))"


text \<open>
  A small store, with identifiers in the style of the seed data, on which the model is
  evaluated: reader \<open>U1\<close> has borrowed one book, reader \<open>U2\<close> that book and six more, and
  reader \<open>U3\<close> none.
\<close>

definition exampleBook :: "string \<Rightarrow> string \<Rightarrow> string \<Rightarrow> book" where
  "exampleBook i t dw = \<lparr>book_id = i, title = t, author = ''Author'', dewey_decimal = dw\<rparr>"

definition exampleLoan :: "string \<Rightarrow> string \<Rightarrow> string \<Rightarrow> loan" where
  "exampleLoan i u b =
     \<lparr>loan_id = i, loan_user_id = u, loan_book_id = b, borrowed_at = ''2024-01-01''\<rparr>"

definition exampleDb :: db where
  "exampleDb =
     \<lparr>books_table =
        [exampleBook ''B0'' ''Clean Code'' ''005.1'', exampleBook ''B1'' ''Rework'' ''005.1'',
         exampleBook ''B2'' ''Outliers'' ''658'', exampleBook ''B3'' ''Mindset'' ''658.4'',
         exampleBook ''B4'' ''Grit'' ''153'', exampleBook ''B5'' ''Drive'' ''909'',
         exampleBook ''B6'' ''Blink'' ''332'', exampleBook ''B7'' ''Refactoring'' ''005.1''],
      users_table =
        [\<lparr>user_id = ''U1'', user_name = ''Amaka''\<rparr>, \<lparr>user_id = ''U2'', user_name = ''David''\<rparr>,
         \<lparr>user_id = ''U3'', user_name = ''Fatima''\<rparr>],
      loans_table =
        [exampleLoan ''L0'' ''U1'' ''B0'', exampleLoan ''L1'' ''U2'' ''B0'',
         exampleLoan ''L2'' ''U2'' ''B1'', exampleLoan ''L3'' ''U2'' ''B2'',
         exampleLoan ''L4'' ''U2'' ''B3'', exampleLoan ''L5'' ''U2'' ''B4'',
         exampleLoan ''L6'' ''U2'' ''B5'', exampleLoan ''L7'' ''U2'' ''B6'']\<rparr>"

text \<open>The same store when only reader \<open>U1\<close> has a loan.\<close>

definition loneReaderDb :: db where
  "loneReaderDb = exampleDb\<lparr>loans_table := [exampleLoan ''L0'' ''U1'' ''B0'']\<rparr>"

text \<open>
  The same store when the only other reader with a loan has the identifier \<open>toString\<close>.
\<close>

definition inheritedKeyDb :: db where
  "inheritedKeyDb =
     exampleDb\<lparr>users_table := [\<lparr>user_id = ''U1'', user_name = ''Amaka''\<rparr>,
                               \<lparr>user_id = ''toString'', user_name = ''David''\<rparr>],
               loans_table := [exampleLoan ''L0'' ''U1'' ''B0'',
                               exampleLoan ''L1'' ''toString'' ''B1'']\<rparr>"

text \<open>
  A store in which the two other readers have numerals as identifiers, \<open>10\<close> and
  \<open>9\<close>, and have borrowed the same two books.
\<close>

definition numericIdsDb :: db where
  "numericIdsDb =
     \<lparr>books_table =
        [exampleBook ''B0'' ''Clean Code'' ''005.1'', exampleBook ''B1'' ''Rework'' ''005.1''],
      users_table =
        [\<lparr>user_id = ''U1'', user_name = ''Amaka''\<rparr>, \<lparr>user_id = ''10'', user_name = ''David''\<rparr>,
         \<lparr>user_id = ''9'', user_name = ''Fatima''\<rparr>],
      loans_table =
        [exampleLoan ''L0'' ''U1'' ''B0'', exampleLoan ''L1'' ''9'' ''B0'',
         exampleLoan ''L2'' ''9'' ''B1'', exampleLoan ''L3'' ''10'' ''B0'',
         exampleLoan ''L4'' ''10'' ''B1'']\<rparr>"

section \<open>Properties of the rounding to doubles\<close>

text \<open>
  \<open>bits n\<close> and \<open>ilog2 x\<close> bracket their argument between two powers of two.
\<close>

lemma bits_0: "bits 0 = 0"
  by (simp add: bits.simps)

lemma bits_pos: "0 < n \<Longrightarrow> bits n = Suc (bits (n div 2))"
  by (subst bits.simps) simp

lemma bits_bounds: "0 < n \<Longrightarrow> 2 ^ (bits n - 1) \<le> n \<and> n < 2 ^ bits n"
proof (induction n rule: bits.induct)
  case (1 n)
  show ?case
  proof (cases "n div 2 = 0")
    case True
    with "1.prems" have "n = 1" by (simp add: div_eq_0_iff)
    then show ?thesis by (simp add: bits_pos bits_0)
  next
    case False
    then have p: "0 < n div 2" by simp
    from "1.IH" "1.prems" p have ih: "2 ^ (bits (n div 2) - 1) \<le> n div 2" "n div 2 < 2 ^ bits (n div 2)"
      by simp_all
    have b: "bits n = Suc (bits (n div 2))" using "1.prems" by (rule bits_pos)
    have b1: "0 < bits (n div 2)" using p by (simp add: bits_pos)
    then have e: "2 ^ bits (n div 2) = 2 * (2::nat) ^ (bits (n div 2) - 1)"
      by (cases "bits (n div 2)") simp_all
    have "2 ^ (bits n - 1) \<le> n" using ih(1) e by (simp add: b)
    moreover have "n < 2 ^ bits n" using ih(2) by (simp add: b)
    ultimately show ?thesis by simp
  qed
qed

lemma bits_pos_iff: "0 < bits n \<longleftrightarrow> 0 < n"
  by (cases "n = 0") (simp_all add: bits_0 bits_pos)

lemma ilog2_bounds:
  assumes "0 < x"
  shows "2 powi ilog2 x \<le> x \<and> x < 2 powi (ilog2 x + 1)"
proof (cases "1 \<le> x")
  case True
  define n where "n = nat \<lfloor>x\<rfloor>"
  from True have fl: "1 \<le> \<lfloor>x\<rfloor>" by simp
  then have n: "0 < n" "int n = \<lfloor>x\<rfloor>" by (simp_all add: n_def)
  from bits_bounds [OF n(1)] have b: "2 ^ (bits n - 1) \<le> n" "n < 2 ^ bits n" by simp_all
  have bp: "0 < bits n" using n(1) by (simp add: bits_pos_iff)
  have il: "ilog2 x = int (bits n) - 1" using True by (simp add: ilog2_def n_def)
  have e1: "int (bits n) - 1 = int (bits n - 1)" using bp by simp
  have "rat_of_nat (2 ^ (bits n - 1)) \<le> rat_of_nat n" using b(1) by (simp only: of_nat_le_iff)
  also have rn: "rat_of_nat n = of_int \<lfloor>x\<rfloor>" using n(2) by (metis of_int_of_nat_eq)
  also have "\<dots> \<le> x" by simp
  finally have lo: "2 powi ilog2 x \<le> x" by (simp add: il e1)
  have "x < of_int \<lfloor>x\<rfloor> + 1" by linarith
  also have "of_int \<lfloor>x\<rfloor> + 1 = rat_of_nat (n + 1)" by (simp add: rn)
  also have "\<dots> \<le> rat_of_nat (2 ^ bits n)"
  proof -
    from b(2) have "n + 1 \<le> 2 ^ bits n" by simp
    then show ?thesis by (simp only: of_nat_le_iff)
  qed
  finally have hi: "x < 2 powi (ilog2 x + 1)" by (simp add: il)
  from lo hi show ?thesis by simp
next
  case False
  with assms have x: "0 < x" "x < 1" by simp_all
  define c where "c = \<lceil>1 / x\<rceil>"
  define m where "m = nat (c - 1)"
  have y1: "1 < 1 / x" using x by simp
  then have c2: "2 \<le> c" unfolding c_def by linarith
  then have m: "0 < m" "int m = c - 1" by (simp_all add: m_def)
  from bits_bounds [OF m(1)] have b: "2 ^ (bits m - 1) \<le> m" "m < 2 ^ bits m" by simp_all
  have bp: "0 < bits m" using m(1) by (simp add: bits_pos_iff)
  have il: "ilog2 x = - int (bits m)" using False by (simp add: ilog2_def m_def c_def)
  have rm: "rat_of_nat m = of_int c - 1"
  proof -
    have "rat_of_nat m = of_int (int m)" by simp
    also have "\<dots> = of_int c - 1" by (simp only: m(2) of_int_diff of_int_1)
    finally show ?thesis .
  qed
  have up: "1 / x \<le> rat_of_nat (2 ^ bits m)"
  proof -
    have "1 / x \<le> of_int c" unfolding c_def by simp
    also have "of_int c = rat_of_nat (m + 1)" by (simp add: rm)
    also have "\<dots> \<le> rat_of_nat (2 ^ bits m)"
    proof -
      from b(2) have "m + 1 \<le> 2 ^ bits m" by simp
      then show ?thesis by (simp only: of_nat_le_iff)
    qed
    finally show ?thesis .
  qed
  have dn: "rat_of_nat (2 ^ (bits m - 1)) < 1 / x"
  proof -
    have "rat_of_nat (2 ^ (bits m - 1)) \<le> rat_of_nat m" using b(1) by (simp only: of_nat_le_iff)
    also have "rat_of_nat m = of_int c - 1" by (rule rm)
    also have "\<dots> < 1 / x" unfolding c_def by linarith
    finally show ?thesis .
  qed
  have p: "(0::rat) < 2 ^ bits m" by simp
  from up x(1) p have lo: "1 / 2 ^ bits m \<le> x"
    by (simp add: field_simps)
  have p': "(0::rat) < 2 ^ (bits m - 1)" by simp
  from dn x(1) p' have hi: "x < 1 / 2 ^ (bits m - 1)"
    by (simp add: field_simps)
  have e1: "- int (bits m) + 1 = - int (bits m - 1)" using bp by simp
  have "2 powi ilog2 x = 1 / (2::rat) ^ bits m"
    by (simp add: il power_int_minus_divide)
  moreover have "2 powi (ilog2 x + 1) = 1 / (2::rat) ^ (bits m - 1)"
    by (simp only: il e1 power_int_minus_divide power_int_of_nat)
  ultimately show ?thesis using lo hi by simp
qed

lemma roundHalfEven_bounds: "\<lfloor>x\<rfloor> \<le> roundHalfEven x \<and> roundHalfEven x \<le> \<lfloor>x\<rfloor> + 1"
  by (simp add: roundHalfEven_def Let_def)

lemma roundHalfEven_of_int: "roundHalfEven (of_int k) = k"
  by (simp add: roundHalfEven_def Let_def)

lemma roundHalfEven_ge: "of_int k \<le> x \<Longrightarrow> k \<le> roundHalfEven x"
proof -
  assume "of_int k \<le> x"
  then have "k \<le> \<lfloor>x\<rfloor>" by (simp add: le_floor_iff)
  with roundHalfEven_bounds [of x] show ?thesis by linarith
qed

lemma roundHalfEven_le: "x \<le> of_int k \<Longrightarrow> roundHalfEven x \<le> k"
proof (cases "x = of_int k")
  case True
  then show ?thesis by (simp add: roundHalfEven_of_int)
next
  case False
  assume "x \<le> of_int k"
  with False have "x < of_int k" by simp
  then have "\<lfloor>x\<rfloor> < k" by (simp add: floor_less_iff)
  with roundHalfEven_bounds [of x] show ?thesis by linarith
qed

lemma roundDouble_eq:
  "x \<noteq> 0 \<Longrightarrow>
   roundDouble x =
     sgn x * of_int (roundHalfEven (\<bar>x\<bar> / 2 powi (exponentOf x - 52))) * 2 powi (exponentOf x - 52)"
  by (simp add: roundDouble_def exponentOf_def Let_def)

lemma roundDouble_0: "roundDouble 0 = 0"
  by (simp add: roundDouble_def)

lemma roundDouble_minus: "roundDouble (- x) = - roundDouble x"
  by (cases "x = 0") (simp_all add: roundDouble_eq exponentOf_def roundDouble_0)

lemma roundDouble_nonneg: "0 \<le> x \<Longrightarrow> 0 \<le> roundDouble x"
proof (cases "x = 0")
  case True
  then show ?thesis by (simp add: roundDouble_0)
next
  case False
  assume "0 \<le> x"
  with False have x: "0 < x" by simp
  have u: "(0::rat) < 2 powi (exponentOf x - 52)" by simp
  from x u have "0 \<le> \<bar>x\<bar> / 2 powi (exponentOf x - 52)" by simp
  then have "0 \<le> roundHalfEven (\<bar>x\<bar> / 2 powi (exponentOf x - 52))"
    using roundHalfEven_ge [of 0] by simp
  with x show ?thesis by (simp add: roundDouble_eq False)
qed

lemma exponentOf_upper:
  assumes "0 < x"
  shows "x < 2 powi (exponentOf x + 1)"
proof -
  from ilog2_bounds [OF assms] have "x < 2 powi (ilog2 x + 1)" by simp
  also have "(2::rat) powi (ilog2 x + 1) \<le> 2 powi (exponentOf x + 1)"
    using assms by (intro power_int_increasing) (simp_all add: exponentOf_def)
  finally show ?thesis .
qed

text \<open>Rounding does not cross a power of two.\<close>

lemma roundDouble_upper:
  assumes "0 < x"
  shows "roundDouble x \<le> 2 powi (exponentOf x + 1)"
proof -
  let ?e = "exponentOf x"
  let ?u = "(2::rat) powi (?e - 52)"
  have u: "0 < ?u" by simp
  have s: "(2::rat) powi (?e + 1) = 2 ^ 53 * ?u"
  proof -
    have "?e + 1 = 53 + (?e - 52)" by simp
    then have "(2::rat) powi (?e + 1) = 2 powi (53 + (?e - 52))" by (simp only:)
    also have "\<dots> = 2 powi 53 * ?u" by (subst power_int_add) simp_all
    finally show ?thesis by simp
  qed
  from exponentOf_upper [OF assms] have "x < 2 ^ 53 * ?u" by (simp only: s)
  with u have "x / ?u < 2 ^ 53" by (simp add: pos_divide_less_eq)
  then have "\<bar>x\<bar> / ?u \<le> of_int (2 ^ 53)" using assms by simp
  then have "roundHalfEven (\<bar>x\<bar> / ?u) \<le> 2 ^ 53" by (rule roundHalfEven_le)
  then have "rat_of_int (roundHalfEven (\<bar>x\<bar> / ?u)) \<le> 2 ^ 53"
    by (metis of_int_le_iff of_int_numeral of_int_power)
  with u have "rat_of_int (roundHalfEven (\<bar>x\<bar> / ?u)) * ?u \<le> 2 ^ 53 * ?u"
    by (simp add: mult_right_mono)
  with assms show ?thesis by (simp add: roundDouble_eq s)
qed

lemma roundDouble_le_1:
  assumes "0 \<le> x" "x \<le> 1"
  shows "roundDouble x \<le> 1"
proof -
  consider "x = 0" | "x = 1" | "0 < x" "x < 1" using assms by fastforce
  then show ?thesis
  proof cases
    case 1
    then show ?thesis by (simp add: roundDouble_0)
  next
    case 2
    have "ilog2 1 = 0" by (simp add: ilog2_def bits_pos bits_0)
    then show ?thesis using 2 by (simp add: roundDouble_def roundHalfEven_def Let_def)
  next
    case 3
    from ilog2_bounds [OF 3(1)] have "2 powi ilog2 x \<le> x" by simp
    with 3(2) have "(2::rat) powi ilog2 x < 2 powi 0" by simp
    then have "ilog2 x < 0"
      by (metis not_le power_int_increasing one_le_numeral)
    then have "exponentOf x + 1 \<le> 0" using 3(1) by (simp add: exponentOf_def)
    then have "(2::rat) powi (exponentOf x + 1) \<le> 2 powi 0"
      by (intro power_int_increasing) simp_all
    with roundDouble_upper [OF 3(1)] show ?thesis by simp
  qed
qed

lemma roundDouble_1: "roundDouble 1 = 1"
proof -
  have "ilog2 1 = 0" by (simp add: ilog2_def bits_pos bits_0)
  then show ?thesis by (simp add: roundDouble_def roundHalfEven_def Let_def)
qed

lemma onGrid_0: "onGrid 0"
  unfolding onGrid_def by (rule exI [of _ 0]) simp

lemma onGrid_minus: "onGrid x \<Longrightarrow> onGrid (- x)"
proof -
  assume "onGrid x"
  then obtain k where "x = of_int k * 2 powi (- 1074)" unfolding onGrid_def ..
  then have "- x = of_int (- k) * 2 powi (- 1074)" by simp
  then show ?thesis unfolding onGrid_def ..
qed

lemma onGrid_diff:
  assumes "onGrid x" "onGrid y"
  shows "onGrid (x - y)"
proof -
  from assms obtain k l where "x = of_int k * 2 powi (- 1074)" "y = of_int l * 2 powi (- 1074)"
    unfolding onGrid_def by blast
  then have "x - y = of_int (k - l) * 2 powi (- 1074)" by (simp add: algebra_simps)
  then show ?thesis unfolding onGrid_def ..
qed

lemma exponentOf_lower: "- 1022 \<le> exponentOf x"
  by (simp add: exponentOf_def)

lemma unit_grid: "\<exists>n. (2::rat) powi (exponentOf x - 52) = of_int (2 ^ n) * 2 powi (- 1074)"
proof -
  define n where "n = nat (exponentOf x - 52 + 1074)"
  have "0 \<le> exponentOf x - 52 + 1074" using exponentOf_lower [of x] by simp
  then have "exponentOf x - 52 = int n + (- 1074)" by (simp add: n_def)
  then have "(2::rat) powi (exponentOf x - 52) = 2 powi (int n + (- 1074))" by (simp only:)
  also have "\<dots> = 2 powi int n * 2 powi (- 1074)" by (rule power_int_add) simp
  also have "\<dots> = of_int (2 ^ n) * 2 powi (- 1074)" by simp
  finally show ?thesis ..
qed

lemma onGrid_roundDouble: "onGrid (roundDouble x)"
proof (cases "x = 0")
  case True
  then show ?thesis by (simp add: roundDouble_0 onGrid_0)
next
  case False
  from unit_grid [of x] obtain n where
    u: "(2::rat) powi (exponentOf x - 52) = of_int (2 ^ n) * 2 powi (- 1074)" ..
  define m where "m = roundHalfEven (\<bar>x\<bar> / 2 powi (exponentOf x - 52))"
  have "roundDouble x = sgn x * of_int m * 2 powi (exponentOf x - 52)"
    using roundDouble_eq [OF False] by (simp only: m_def)
  also have "\<dots> = sgn x * of_int m * (of_int (2 ^ n) * 2 powi (- 1074))"
    by (simp only: u)
  also have "\<dots> = of_int ((if 0 < x then 1 else - 1) * m * 2 ^ n) * 2 powi (- 1074)"
    using False by (simp add: sgn_if)
  finally show ?thesis unfolding onGrid_def ..
qed

lemma smallest_unit: "(2::rat) powi (- 1074) \<le> 2 powi (exponentOf x - 52)"
  using exponentOf_lower [of x] by (intro power_int_increasing) simp_all

lemma roundDouble_pos:
  assumes "2 powi (- 1074) \<le> x"
  shows "0 < roundDouble x"
proof -
  have p: "(0::rat) < 2 powi (- 1074)" by simp
  with assms have x: "0 < x" by linarith
  let ?u = "(2::rat) powi (exponentOf x - 52)"
  have u: "0 < ?u" by simp
  have "?u \<le> x"
  proof (cases "- 1022 \<le> ilog2 x")
    case True
    then have e: "exponentOf x = ilog2 x" using x by (simp add: exponentOf_def)
    have "(2::rat) powi (ilog2 x - 52) \<le> 2 powi ilog2 x"
      by (intro power_int_increasing) simp_all
    also from ilog2_bounds [OF x] have "\<dots> \<le> x" by simp
    finally show ?thesis by (simp only: e)
  next
    case False
    then have "exponentOf x = - 1022" using x by (simp add: exponentOf_def)
    then have "?u = 2 powi (- 1074)" by simp
    with assms show ?thesis by simp
  qed
  with u have "of_int 1 \<le> \<bar>x\<bar> / ?u" using x by (simp add: pos_le_divide_eq)
  then have "1 \<le> roundHalfEven (\<bar>x\<bar> / ?u)" by (rule roundHalfEven_ge)
  then have "0 < rat_of_int (roundHalfEven (\<bar>x\<bar> / ?u))" by simp
  with u x show ?thesis by (simp add: roundDouble_eq)
qed

lemma onGrid_pos:
  assumes "onGrid z" "0 < z"
  shows "2 powi (- 1074) \<le> z"
proof -
  from assms(1) obtain k where k: "z = of_int k * 2 powi (- 1074)" unfolding onGrid_def ..
  have p: "(0::rat) < 2 powi (- 1074)" by simp
  from assms(2) k p have "0 < rat_of_int k" by (simp add: zero_less_mult_iff)
  then have "1 \<le> k" by simp
  then have "(1::rat) \<le> of_int k" by (metis of_int_1 of_int_le_iff)
  with p have "1 * 2 powi (- 1074) \<le> rat_of_int k * 2 powi (- 1074)"
    by (intro mult_right_mono) simp_all
  with k show ?thesis by simp
qed

text \<open>The sign of a rounded sum or difference of two doubles is the sign of the exact one.\<close>

lemma roundDouble_sign:
  assumes "onGrid z"
  shows "(roundDouble z \<le> 0 \<longleftrightarrow> z \<le> 0) \<and> (roundDouble z = 0 \<longleftrightarrow> z = 0)"
proof -
  consider "z = 0" | "0 < z" | "z < 0" by linarith
  then show ?thesis
  proof cases
    case 1
    then show ?thesis by (simp add: roundDouble_0)
  next
    case 2
    from onGrid_pos [OF assms 2] have "0 < roundDouble z" by (rule roundDouble_pos)
    with 2 show ?thesis by simp
  next
    case 3
    then have "0 < - z" by simp
    from onGrid_pos [OF onGrid_minus [OF assms] this] have "0 < roundDouble (- z)"
      by (rule roundDouble_pos)
    then have "roundDouble z < 0" by (simp add: roundDouble_minus)
    with 3 show ?thesis by simp
  qed
qed

lemma roundDouble_below:
  assumes "0 < x" "x < 2 powi k" "- 1021 \<le> k"
  shows "roundDouble x \<le> 2 powi k"
proof -
  from ilog2_bounds [OF assms(1)] have "2 powi ilog2 x \<le> x" by simp
  with assms(2) have "(2::rat) powi ilog2 x < 2 powi k" by simp
  then have "ilog2 x < k"
    by (metis not_le power_int_increasing one_le_numeral)
  with assms(3) have "exponentOf x + 1 \<le> k" using assms(1) by (simp add: exponentOf_def)
  then have "(2::rat) powi (exponentOf x + 1) \<le> 2 powi k"
    by (intro power_int_increasing) simp_all
  with roundDouble_upper [OF assms(1)] show ?thesis by simp
qed

lemma fsub_sign:
  assumes "onGrid x" "onGrid y"
  shows "(fsub x y \<le> 0 \<longleftrightarrow> x \<le> y) \<and> (fsub x y = 0 \<longleftrightarrow> x = y)"
  using roundDouble_sign [OF onGrid_diff [OF assms]] by (simp add: fsub_def)

lemma fsub_le: "onGrid x \<Longrightarrow> onGrid y \<Longrightarrow> fsub x y \<le> 0 \<longleftrightarrow> x \<le> y"
  using fsub_sign by blast


text \<open>Rules that let the simplifier evaluate the model on given numbers and strings.\<close>

lemma replicate_numeral: "replicate (numeral k) x = x # replicate (pred_numeral k) x"
  by (simp add: numeral_eq_Suc)

lemma floor_rat_numeral_divide: "\<lfloor>numeral a / numeral b :: rat\<rfloor> = numeral a div numeral b"
  by (metis floor_divide_of_int_eq of_int_numeral)

lemma floor_rat_minus_numeral_divide:
  "\<lfloor>- (numeral a / numeral b) :: rat\<rfloor> = - numeral a div numeral b"
  by (metis divide_minus_left floor_divide_of_int_eq of_int_neg_numeral of_int_numeral)

lemma floor_rat_one_divide: "\<lfloor>1 / numeral b :: rat\<rfloor> = 1 div numeral b"
  by (metis floor_divide_of_int_eq of_int_1 of_int_numeral)

lemma floor_rat_minus_one_divide: "\<lfloor>- (1 / numeral b) :: rat\<rfloor> = - 1 div numeral b"
  by (metis divide_minus_left floor_divide_of_int_eq of_int_minus of_int_1 of_int_numeral)

lemma ceiling_rat_numeral_divide:
  "\<lceil>numeral a / numeral b :: rat\<rceil> = - (- numeral a div numeral b)"
  unfolding ceiling_def
  by (metis divide_minus_left floor_divide_of_int_eq of_int_neg_numeral of_int_numeral)

lemma ceiling_rat_one_divide: "\<lceil>1 / numeral b :: rat\<rceil> = - (- 1 div numeral b)"
  unfolding ceiling_def
  by (metis divide_minus_left floor_divide_of_int_eq of_int_minus of_int_1 of_int_numeral)

lemmas double_defs =
  fadd_def fsub_def fmul_def fdiv_def roundDouble_def ilog2_def roundHalfEven_def Let_def
  bits_0 bits_pos floor_rat_numeral_divide floor_rat_one_divide ceiling_rat_numeral_divide
  ceiling_rat_one_divide power_int_minus

text \<open>
  \<open>roundDouble x\<close> is a double and the nearest one: it is a multiple of the spacing
  \<open>2^(e - 52)\<close> of the doubles around \<open>x\<close> by an integer of at most 53 bits, and it
  differs from \<open>x\<close> by at most half that spacing.
\<close>

lemma roundHalfEven_error: "\<bar>of_int (roundHalfEven x) - x\<bar> \<le> 1 / 2"
proof -
  define r where "r = x - of_int \<lfloor>x\<rfloor>"
  have r: "0 \<le> r" "r < 1" unfolding r_def by linarith+
  have x: "x = of_int \<lfloor>x\<rfloor> + r" by (simp add: r_def)
  have k: "roundHalfEven x =
      (if r < 1 / 2 then \<lfloor>x\<rfloor> else if 1 / 2 < r then \<lfloor>x\<rfloor> + 1
       else if even \<lfloor>x\<rfloor> then \<lfloor>x\<rfloor> else \<lfloor>x\<rfloor> + 1)"
    by (simp add: roundHalfEven_def Let_def r_def)
  consider "r < 1 / 2" | "1 / 2 < r" | "r = 1 / 2" by linarith
  then show ?thesis
  proof cases
    case 1
    then have "of_int (roundHalfEven x) - x = - r" unfolding k by (subst (2) x) simp
    with r 1 show ?thesis by simp
  next
    case 2
    then have "of_int (roundHalfEven x) - x = 1 - r" unfolding k by (subst (2) x) simp
    with r 2 show ?thesis by simp
  next
    case 3
    then have "of_int (roundHalfEven x) - x = - r \<or> of_int (roundHalfEven x) - x = 1 - r"
      unfolding k by (subst (2) x, subst (4) x) auto
    with 3 show ?thesis by auto
  qed
qed

lemma roundDouble_significand:
  "\<exists>m. roundDouble x = of_int m * 2 powi (exponentOf x - 52) \<and> \<bar>m\<bar> \<le> 2 ^ 53"
proof (cases "x = 0")
  case True
  have "roundDouble x = of_int 0 * 2 powi (exponentOf x - 52) \<and> \<bar>0 :: int\<bar> \<le> 2 ^ 53"
    using True by (simp add: roundDouble_0)
  then show ?thesis by blast
next
  case False
  let ?u = "(2::rat) powi (exponentOf x - 52)"
  define k where "k = roundHalfEven (\<bar>x\<bar> / ?u)"
  have u: "0 < ?u" by simp
  have s: "(2::rat) powi (exponentOf \<bar>x\<bar> + 1) = 2 ^ 53 * ?u"
  proof -
    have "exponentOf \<bar>x\<bar> + 1 = 53 + (exponentOf x - 52)" by (simp add: exponentOf_def)
    then have "(2::rat) powi (exponentOf \<bar>x\<bar> + 1) = 2 powi (53 + (exponentOf x - 52))"
      by (simp only:)
    also have "\<dots> = 2 powi 53 * ?u" by (subst power_int_add) simp_all
    finally show ?thesis by simp
  qed
  from False have "0 < \<bar>x\<bar>" by simp
  from exponentOf_upper [OF this] have "\<bar>x\<bar> < 2 ^ 53 * ?u" by (simp only: s)
  with u have "\<bar>x\<bar> / ?u < 2 ^ 53" by (simp add: pos_divide_less_eq)
  then have "\<bar>x\<bar> / ?u \<le> of_int (2 ^ 53)" by simp
  then have hi: "k \<le> 2 ^ 53" unfolding k_def by (rule roundHalfEven_le)
  have "of_int 0 \<le> \<bar>x\<bar> / ?u" using u by simp
  then have lo: "0 \<le> k" unfolding k_def by (rule roundHalfEven_ge)
  define m where "m = (if 0 < x then k else - k)"
  have "roundDouble x = of_int m * ?u"
    using False roundDouble_eq [OF False] by (simp add: m_def k_def sgn_if)
  moreover have "\<bar>m\<bar> \<le> 2 ^ 53" using lo hi by (simp add: m_def)
  ultimately show ?thesis by blast
qed

lemma roundDouble_error: "\<bar>roundDouble x - x\<bar> \<le> 2 powi (exponentOf x - 52) / 2"
proof (cases "x = 0")
  case True
  then show ?thesis by (simp add: roundDouble_0)
next
  case False
  let ?u = "(2::rat) powi (exponentOf x - 52)"
  define k where "k = rat_of_int (roundHalfEven (\<bar>x\<bar> / ?u))"
  have u: "0 < ?u" by simp
  have "\<bar>k - \<bar>x\<bar> / ?u\<bar> \<le> 1 / 2" unfolding k_def by (rule roundHalfEven_error)
  with u have "\<bar>k - \<bar>x\<bar> / ?u\<bar> * ?u \<le> 1 / 2 * ?u" by (intro mult_right_mono) simp_all
  moreover have "\<bar>k - \<bar>x\<bar> / ?u\<bar> * ?u = \<bar>k * ?u - \<bar>x\<bar>\<bar>"
  proof -
    have "\<bar>k - \<bar>x\<bar> / ?u\<bar> * ?u = \<bar>(k - \<bar>x\<bar> / ?u) * ?u\<bar>" using u by (simp add: abs_mult)
    also have "(k - \<bar>x\<bar> / ?u) * ?u = k * ?u - \<bar>x\<bar>" using u by (simp add: left_diff_distrib)
    finally show ?thesis .
  qed
  ultimately have e: "\<bar>k * ?u - \<bar>x\<bar>\<bar> \<le> ?u / 2" by simp
  have "roundDouble x - x = sgn x * (k * ?u - \<bar>x\<bar>)"
    using False roundDouble_eq [OF False] by (simp add: k_def sgn_if algebra_simps)
  then have "\<bar>roundDouble x - x\<bar> = \<bar>k * ?u - \<bar>x\<bar>\<bar>"
    using False by (simp add: abs_mult abs_sgn_eq)
  with e show ?thesis by simp
qed

text \<open>Rounding does not go below a power of two either.\<close>

lemma roundDouble_above:
  assumes "2 powi k \<le> x" "- 1022 \<le> k"
  shows "2 powi k \<le> roundDouble x"
proof -
  have "(0::rat) < 2 powi k" by simp
  with assms(1) have x: "0 < x" by linarith
  let ?e = "exponentOf x"
  let ?u = "(2::rat) powi (?e - 52)"
  have u: "0 < ?u" by simp
  from ilog2_bounds [OF x] assms(1) have "(2::rat) powi k < 2 powi (ilog2 x + 1)" by simp
  then have "k < ilog2 x + 1"
    by (metis not_le power_int_increasing one_le_numeral)
  then have ke: "k \<le> ?e" and ee: "?e = ilog2 x"
    using assms(2) x by (simp_all add: exponentOf_def)
  have s: "(2::rat) powi ?e = 2 ^ 52 * ?u"
  proof -
    have "?e = 52 + (?e - 52)" by simp
    then have "(2::rat) powi ?e = 2 powi (52 + (?e - 52))" by (simp only:)
    also have "\<dots> = 2 powi 52 * ?u" by (subst power_int_add) simp_all
    finally show ?thesis by simp
  qed
  from ilog2_bounds [OF x] have "2 powi ?e \<le> x" by (simp only: ee)
  then have "2 ^ 52 * ?u \<le> x" by (simp only: s)
  with u have "of_int (2 ^ 52) \<le> \<bar>x\<bar> / ?u" using x by (simp add: pos_le_divide_eq)
  then have "2 ^ 52 \<le> roundHalfEven (\<bar>x\<bar> / ?u)" by (rule roundHalfEven_ge)
  then have "(2::rat) ^ 52 \<le> rat_of_int (roundHalfEven (\<bar>x\<bar> / ?u))"
    by (metis of_int_le_iff of_int_numeral of_int_power)
  with u have "2 ^ 52 * ?u \<le> rat_of_int (roundHalfEven (\<bar>x\<bar> / ?u)) * ?u"
    by (intro mult_right_mono) simp_all
  then have "2 powi ?e \<le> roundDouble x" using x by (simp add: roundDouble_eq s)
  moreover have "(2::rat) powi k \<le> 2 powi ?e" using ke by (intro power_int_increasing) simp_all
  ultimately show ?thesis by linarith
qed

text \<open>
  The rounding on a few numbers: \<open>0.1\<close> is not a double; a number halfway between two
  doubles goes to the one with the even significand.
\<close>

lemma roundDouble_examples:
  "roundDouble (1 / 10) = 3602879701896397 / 36028797018963968"
  "roundDouble (2 ^ 53 + 1) = 2 ^ 53"
  "roundDouble (2 ^ 53 + 3) = 2 ^ 53 + 4"
  by (simp_all add: double_defs)

section \<open>Properties of the Jaccard similarity\<close>

lemma count_foldl:
  "foldl (\<lambda>c item. if has larger item then c + 1 else c) (k::int) smaller =
     k + int (length (filter (has larger) smaller))"
  by (induction smaller arbitrary: k) auto

lemma filter_has_card:
  assumes "distinct xs"
  shows "length (filter (has ys) xs) = card (set xs \<inter> set ys)"
proof -
  have "set (filter (has ys) xs) = set xs \<inter> set ys"
    by (auto simp: has_def)
  moreover have "distinct (filter (has ys) xs)" using assms by simp
  ultimately show ?thesis by (metis distinct_card)
qed

lemma jaccard_closed:
  "jaccard A B =
     (if A = [] \<and> B = [] then 0
      else roundDouble
             (rat_of_int (int (inter_count A B)) /
              rat_of_int (int (length A) + int (length B) - int (inter_count A B))))"
  by (simp add: jaccard_def count_foldl inter_count_def fdiv_def)

lemma inter_count_le: "inter_count A B \<le> length A" "inter_count A B \<le> length B"
proof -
  have a: "length (filter (has B) A) \<le> length A" and b: "length (filter (has A) B) \<le> length B"
    by simp_all
  show "inter_count A B \<le> length A"
  proof (cases "length A \<le> length B")
    case True
    then show ?thesis by (simp add: inter_count_def)
  next
    case False
    with b have "length (filter (has A) B) \<le> length A" by linarith
    with False show ?thesis by (simp add: inter_count_def)
  qed
  show "inter_count A B \<le> length B"
  proof (cases "length A \<le> length B")
    case True
    with a have "length (filter (has B) A) \<le> length B" by linarith
    with True show ?thesis by (simp add: inter_count_def)
  next
    case False
    then show ?thesis by (simp add: inter_count_def)
  qed
qed

lemma inter_count_sym:
  assumes "distinct A" "distinct B"
  shows "inter_count A B = inter_count B A"
proof -
  have "length (filter (has B) A) = length (filter (has A) B)"
    using assms by (simp add: filter_has_card Int_commute)
  then show ?thesis by (simp add: inter_count_def)
qed

lemma inter_count_self: "inter_count A A = length A"
  by (simp add: inter_count_def has_def)

lemma quotient_range:
  fixes i a b :: int
  assumes "0 \<le> i" "i \<le> a" "i \<le> b" "0 < a \<or> 0 < b"
  shows "0 \<le> rat_of_int i / rat_of_int (a + b - i) \<and> rat_of_int i / rat_of_int (a + b - i) \<le> 1"
proof -
  have pos: "0 < a + b - i" using assms by linarith
  have le: "i \<le> a + b - i" using assms by linarith
  have "0 \<le> rat_of_int i / rat_of_int (a + b - i)"
    using assms(1) pos by simp
  moreover have "rat_of_int i / rat_of_int (a + b - i) \<le> 1"
    using pos le by (simp add: divide_le_eq_1)
  ultimately show ?thesis by simp
qed

lemma jaccard_sym:
  assumes "distinct A" "distinct B"
  shows "jaccard A B = jaccard B A"
  using inter_count_sym [OF assms] by (auto simp: jaccard_closed add.commute)

lemma jaccard_range: "0 \<le> jaccard A B \<and> jaccard A B \<le> 1"
proof (cases "A = [] \<and> B = []")
  case True
  then show ?thesis by (simp add: jaccard_closed)
next
  case False
  let ?q = "rat_of_int (int (inter_count A B)) /
            rat_of_int (int (length A) + int (length B) - int (inter_count A B))"
  from False have "0 < int (length A) \<or> 0 < int (length B)" by auto
  from quotient_range [OF _ _ _ this, of "int (inter_count A B)"] inter_count_le [of A B]
  have q: "0 \<le> ?q" "?q \<le> 1" by simp_all
  from roundDouble_nonneg [OF q(1)] roundDouble_le_1 [OF q]
  show ?thesis using False by (simp add: jaccard_closed)
qed

lemma jaccard_self: "A \<noteq> [] \<Longrightarrow> jaccard A A = 1"
  by (simp add: jaccard_closed inter_count_self roundDouble_1)

lemma jaccard_disjoint:
  assumes "set A \<inter> set B = {}"
  shows "jaccard A B = 0"
proof -
  from assms have "filter (has B) A = []" "filter (has A) B = []"
    by (auto simp: has_def filter_empty_conv)
  then have "inter_count A B = 0" by (simp add: inter_count_def)
  then show ?thesis by (simp add: jaccard_closed roundDouble_0)
qed

lemma onGrid_jaccard: "onGrid (jaccard A B)"
  by (simp add: jaccard_closed onGrid_0 onGrid_roundDouble)

text \<open>
  Claim C4.  For sets \<open>A\<close> and \<open>B\<close> (lists without repetition), \<open>jaccard A B\<close> equals
  \<open>jaccard B A\<close>, lies between 0 and 1, is 0 for two empty sets, and is 1 for a non-empty
  set against itself.
\<close>

theorem jaccard_properties:
  assumes "distinct A" "distinct B"
  shows "jaccard A B = jaccard B A \<and> 0 \<le> jaccard A B \<and> jaccard A B \<le> 1 \<and>
         jaccard ([] :: 'a list) [] = 0 \<and> (A \<noteq> [] \<longrightarrow> jaccard A A = 1)"
proof -
  have "jaccard ([] :: 'a list) [] = 0" by (simp add: jaccard_def)
  with jaccard_sym [OF assms] jaccard_range [of A B] jaccard_self [of A]
  show ?thesis by blast
qed

theorem jaccard_properties_witness:
  "distinct [1, 2, 3 :: nat] \<and> distinct [1, 2, 4 :: nat] \<and>
   jaccard [1, 2, 3 :: nat] [1, 2, 4] = jaccard [1, 2, 4 :: nat] [1, 2, 3] \<and>
   0 \<le> jaccard [1, 2, 3 :: nat] [1, 2, 4] \<and> jaccard [1, 2, 3 :: nat] [1, 2, 4] \<le> 1 \<and>
   jaccard [1, 2, 3 :: nat] [1, 2, 3] = 1"
proof -
  have a: "distinct [1, 2, 3 :: nat]" and b: "distinct [1, 2, 4 :: nat]" by simp_all
  from jaccard_properties [OF a b] a b show ?thesis by blast
qed

text \<open>
  The quotient is rounded: one common book out of seven gives the double nearest to
  \<open>1/7\<close>.
\<close>

lemma jaccard_rounded:
  "jaccard [0 :: nat] [0, 1, 2, 3, 4, 5, 6] = 2573485501354569 / 18014398509481984"
  by (simp add: jaccard_def has_def double_defs)

section \<open>Properties of the candidate aggregator\<close>

lemma Map_has_iff: "Map_has m k \<longleftrightarrow> k \<in> set (map fst m)"
  by (simp add: Map_has_def map_of_eq_None_iff)

lemma map_of_replace:
  "map_of (map (\<lambda>(k', v'). if k' = k then (k', v) else (k', v')) m) =
     (if k \<in> set (map fst m) then (map_of m)(k \<mapsto> v) else map_of m)"
  by (induction m) (auto simp: fun_eq_iff)

lemma map_fst_replace:
  "map fst (map (\<lambda>(k', v'). if k' = k then (k', v) else (k', v')) m) = map fst m"
  by (induction m) auto

lemma map_of_Map_set: "map_of (Map_set m k v) = (map_of m)(k \<mapsto> v)"
proof (cases "k \<in> set (map fst m)")
  case True
  then have "Map_set m k v = map (\<lambda>(k', v'). if k' = k then (k', v) else (k', v')) m"
    by (simp only: Map_set_def Map_has_iff if_True)
  with True show ?thesis by (simp only: map_of_replace if_True)
next
  case False
  then have e: "Map_set m k v = m @ [(k, v)]"
    by (simp only: Map_set_def Map_has_iff if_False)
  from False have "map_of m k = None" by (simp add: map_of_eq_None_iff)
  then show ?thesis
    unfolding e by (auto simp: fun_eq_iff map_add_def split: option.splits)
qed

lemma keys_Map_set:
  "map fst (Map_set m k v) = (if k \<in> set (map fst m) then map fst m else map fst m @ [k])"
proof (cases "k \<in> set (map fst m)")
  case True
  then have "Map_set m k v = map (\<lambda>(k', v'). if k' = k then (k', v) else (k', v')) m"
    by (simp only: Map_set_def Map_has_iff if_True)
  with True show ?thesis by (simp only: map_fst_replace if_True)
next
  case False
  then have e: "Map_set m k v = m @ [(k, v)]"
    by (simp only: Map_set_def Map_has_iff if_False)
  from False show ?thesis unfolding e by simp
qed

lemma distinct_Map_set: "distinct (map fst m) \<Longrightarrow> distinct (map fst (Map_set m k v))"
  by (simp add: keys_Map_set del: set_map)

lemma map_of_addCandidate:
  "map_of (addCandidate targetBooks p m b) =
     (if has targetBooks b then map_of m else (map_of m)(b \<mapsto> bump p (map_of m b)))"
  by (auto simp: addCandidate_def Let_def Map_has_def Map_get_def map_of_Map_set bump_def fun_eq_iff
      split: option.splits)

lemma distinct_addCandidate:
  "distinct (map fst m) \<Longrightarrow> distinct (map fst (addCandidate targetBooks p m b))"
  by (auto simp: addCandidate_def Let_def distinct_Map_set split: option.splits)

lemma distinct_inner:
  "distinct (map fst m) \<Longrightarrow> distinct (map fst (foldl (addCandidate targetBooks p) m bs))"
  by (induction bs arbitrary: m) (simp_all add: distinct_addCandidate)

lemma map_of_inner:
  assumes "distinct bs"
  shows "map_of (foldl (addCandidate targetBooks p) m bs) b =
     (if has bs b \<and> \<not> has targetBooks b then Some (bump p (map_of m b)) else map_of m b)"
  using assms
proof (induction bs arbitrary: m)
  case Nil
  then show ?case by (simp add: has_def)
next
  case (Cons x xs)
  then show ?case
    by (auto simp: has_def map_of_addCandidate)
qed

lemma contributors_snoc:
  "contributors (ps @ [p]) b = contributors ps b @ (if has (books p) b then [p] else [])"
  by (simp add: contributors_def)

lemma bump_expected:
  assumes "has (books p) b" "\<not> has targetBooks b"
  shows "Some (bump p (expected ps targetBooks b)) = expected (ps @ [p]) targetBooks b"
  using assms by (simp add: expected_def contributors_snoc bump_def)

lemma expected_skip:
  assumes "\<not> has (books p) b \<or> has targetBooks b"
  shows "expected (ps @ [p]) targetBooks b = expected ps targetBooks b"
  using assms by (auto simp: expected_def contributors_snoc)

lemma aggregate_snoc:
  "aggregateCandidates (ps @ [p]) targetBooks =
     foldl (addCandidate targetBooks p) (aggregateCandidates ps targetBooks) (books p)"
  by (simp add: aggregateCandidates_def)

lemma aggregate_invariant:
  assumes "\<forall>p \<in> set peers. distinct (books p)"
  shows "distinct (map fst (aggregateCandidates peers targetBooks)) \<and>
         map_of (aggregateCandidates peers targetBooks) = expected peers targetBooks"
  using assms
proof (induction peers rule: rev_induct)
  case Nil
  then show ?case by (simp add: aggregateCandidates_def expected_def contributors_def fun_eq_iff)
next
  case (snoc p ps)
  then have ih: "distinct (map fst (aggregateCandidates ps targetBooks))"
      "map_of (aggregateCandidates ps targetBooks) = expected ps targetBooks"
    and d: "distinct (books p)" by simp_all
  have "distinct (map fst (aggregateCandidates (ps @ [p]) targetBooks))"
    unfolding aggregate_snoc using ih(1) by (rule distinct_inner)
  moreover have "map_of (aggregateCandidates (ps @ [p]) targetBooks) b = expected (ps @ [p]) targetBooks b" for b
    unfolding aggregate_snoc map_of_inner [OF d] ih(2)
    using bump_expected [of p b targetBooks ps] expected_skip [of p b targetBooks ps]
    by auto
  ultimately show ?case by (simp add: fun_eq_iff)
qed

text \<open>
  Claim C1.  For peers whose book sets are sets (lists without repetition) and any
  exclusion set, the candidate map has every key once; a book is a key exactly when some
  peer's set contains it and the exclusion set does not; and the entry of a book holds the
  sum of the scores of the peers whose sets contain it, added up from 0 in the order of
  the peer list with the addition of doubles, and the identifiers of those peers in that
  order.
\<close>

theorem aggregateCandidates_spec:
  assumes "\<forall>p \<in> set peers. distinct (books p)"
  shows "distinct (map fst (aggregateCandidates peers targetBooks)) \<and>
         (\<forall>b. b \<in> set (map fst (aggregateCandidates peers targetBooks)) \<longleftrightarrow>
                (\<exists>p \<in> set peers. has (books p) b) \<and> \<not> has targetBooks b) \<and>
         (\<forall>b e. (b, e) \<in> set (aggregateCandidates peers targetBooks) \<longrightarrow>
                weightedScore e = foldl fadd 0 (map score (filter (\<lambda>p. has (books p) b) peers)) \<and>
                recommendedBy e = map peerId (filter (\<lambda>p. has (books p) b) peers))"
proof -
  let ?c = "aggregateCandidates peers targetBooks"
  from aggregate_invariant [OF assms, of targetBooks]
  have d: "distinct (map fst ?c)" and m: "map_of ?c = expected peers targetBooks" by simp_all
  have keys: "b \<in> set (map fst ?c) \<longleftrightarrow> (\<exists>p \<in> set peers. has (books p) b) \<and> \<not> has targetBooks b" for b
  proof -
    have "b \<in> set (map fst ?c) \<longleftrightarrow> map_of ?c b \<noteq> None"
      by (simp add: map_of_eq_None_iff)
    also have "\<dots> \<longleftrightarrow> expected peers targetBooks b \<noteq> None" by (simp add: m)
    also have "\<dots> \<longleftrightarrow> (\<exists>p \<in> set peers. has (books p) b) \<and> \<not> has targetBooks b"
      by (auto simp: expected_def contributors_def filter_empty_conv)
    finally show ?thesis .
  qed
  have vals: "weightedScore e = foldl fadd 0 (map score (filter (\<lambda>p. has (books p) b) peers)) \<and>
        recommendedBy e = map peerId (filter (\<lambda>p. has (books p) b) peers)"
    if "(b, e) \<in> set ?c" for b e
  proof -
    from that d have "map_of ?c b = Some e" by simp
    then have "expected peers targetBooks b = Some e" by (simp add: m)
    then show ?thesis by (auto simp: expected_def contributors_def split: if_splits)
  qed
  from d keys vals show ?thesis by blast
qed

theorem aggregateCandidates_spec_witness:
  "list_all (\<lambda>p. distinct (books p))
     [\<lparr>peerId = ''B'', score = 1 / 2, books = [1, 2, 4 :: nat]\<rparr>,
      \<lparr>peerId = ''D'', score = 1 / 4, books = [4, 7]\<rparr>] \<and>
   distinct (map fst (aggregateCandidates
     [\<lparr>peerId = ''B'', score = 1 / 2, books = [1, 2, 4 :: nat]\<rparr>,
      \<lparr>peerId = ''D'', score = 1 / 4, books = [4, 7]\<rparr>] [1, 2, 3])) \<and>
   aggregateCandidates
     [\<lparr>peerId = ''B'', score = 1 / 2, books = [1, 2, 4 :: nat]\<rparr>,
      \<lparr>peerId = ''D'', score = 1 / 4, books = [4, 7]\<rparr>] [1, 2, 3] =
     [(4, \<lparr>weightedScore = 3 / 4, recommendedBy = [''B'', ''D'']\<rparr>),
      (7, \<lparr>weightedScore = 1 / 4, recommendedBy = [''D'']\<rparr>)]"
proof -
  let ?P = "[\<lparr>peerId = ''B'', score = 1 / 2, books = [1, 2, 4 :: nat]\<rparr>,
             \<lparr>peerId = ''D'', score = 1 / 4, books = [4, 7]\<rparr>]"
  have h: "\<forall>p \<in> set ?P. distinct (books p)" by simp
  from aggregateCandidates_spec [OF h, of "[1, 2, 3]"]
  have "distinct (map fst (aggregateCandidates ?P [1, 2, 3]))" by blast
  moreover have "aggregateCandidates ?P [1, 2, 3] =
     [(4, \<lparr>weightedScore = 3 / 4, recommendedBy = [''B'', ''D'']\<rparr>),
      (7, \<lparr>weightedScore = 1 / 4, recommendedBy = [''D'']\<rparr>)]"
    by (simp add: aggregateCandidates_def addCandidate_def has_def Map_has_def Map_get_def
        Map_set_def double_defs)
  ultimately show ?thesis by simp
qed

section \<open>Properties of the peer scorer\<close>

lemma mset_insort_cmp: "mset (insort_cmp cmp x xs) = add_mset x (mset xs)"
  by (induction xs) auto

lemma mset_array_sort: "mset (array_sort cmp xs) = mset xs"
  unfolding array_sort_def by (induction xs) (simp_all add: mset_insort_cmp)

lemma set_insort_cmp: "set (insort_cmp cmp x xs) = insert x (set xs)"
  by (induction xs) auto

lemma set_array_sort: "set (array_sort cmp xs) = set xs"
  by (metis mset_array_sort set_mset_mset)

text \<open>
  The sort yields a sorted array when the comparison function is total and transitive on
  the elements it is given.
\<close>

lemma sorted_insort_cmp:
  assumes tot: "\<And>a b. P a \<Longrightarrow> P b \<Longrightarrow> cmp a b \<le> 0 \<or> cmp b a \<le> 0"
    and tr: "\<And>a b c. P a \<Longrightarrow> P b \<Longrightarrow> P c \<Longrightarrow> cmp a b \<le> 0 \<Longrightarrow> cmp b c \<le> 0 \<Longrightarrow> cmp a c \<le> 0"
    and x: "P x"
  shows "\<forall>y \<in> set xs. P y \<Longrightarrow> sorted_wrt (\<lambda>a b. cmp a b \<le> 0) xs \<Longrightarrow>
         sorted_wrt (\<lambda>a b. cmp a b \<le> 0) (insort_cmp cmp x xs)"
proof (induction xs)
  case Nil
  then show ?case by simp
next
  case (Cons y ys)
  from Cons.prems have y: "P y" and ys: "\<forall>z \<in> set ys. P z"
    and s: "\<forall>z \<in> set ys. cmp y z \<le> 0" "sorted_wrt (\<lambda>a b. cmp a b \<le> 0) ys"
    by simp_all
  show ?case
  proof (cases "cmp x y \<le> 0")
    case True
    have "cmp x z \<le> 0" if "z \<in> set ys" for z
      using tr [OF x y _ True] ys s(1) that by blast
    with True Cons.prems show ?thesis by simp
  next
    case False
    with tot [OF x y] have "cmp y x \<le> 0" by blast
    with False s Cons.IH [OF ys s(2)] show ?thesis by (simp add: set_insort_cmp)
  qed
qed

lemma sorted_array_sort:
  assumes tot: "\<And>a b. P a \<Longrightarrow> P b \<Longrightarrow> cmp a b \<le> 0 \<or> cmp b a \<le> 0"
    and tr: "\<And>a b c. P a \<Longrightarrow> P b \<Longrightarrow> P c \<Longrightarrow> cmp a b \<le> 0 \<Longrightarrow> cmp b c \<le> 0 \<Longrightarrow> cmp a c \<le> 0"
  shows "\<forall>y \<in> set xs. P y \<Longrightarrow> sorted_wrt (\<lambda>a b. cmp a b \<le> 0) (array_sort cmp xs)"
  unfolding array_sort_def
proof (induction xs)
  case Nil
  then show ?case by simp
next
  case (Cons x xs)
  then have x: "P x" and xs: "\<forall>y \<in> set xs. P y" by simp_all
  have "\<forall>y \<in> set (foldr (insort_cmp cmp) xs []). P y"
    using xs set_array_sort [of cmp xs] by (simp add: array_sort_def)
  from sorted_insort_cmp [of P cmp, OF tot tr x this Cons.IH [OF xs]] show ?case by simp
qed

lemma mset_Object_entries: "mset (Object_entries obj) = mset obj"
  by (simp add: Object_entries_def)

lemma set_Object_entries: "set (Object_entries obj) = set obj"
  by (metis mset_Object_entries set_mset_mset)

lemma scored_foldl:
  "foldl (\<lambda>acc (pid, peerBooks).
            let sc = jaccard targetBooks peerBooks
            in if sc \<ge> minScore
               then acc @ [\<lparr>peerId = pid, score = sc, books = peerBooks\<rparr>]
               else acc) acc0 m =
   acc0 @ map (scoredPeer targetBooks) (filter (\<lambda>e. minScore \<le> jaccard targetBooks (snd e)) m)"
  by (induction m arbitrary: acc0) (auto simp: scoredPeer_def Let_def)

lemma scorePeers_eq:
  "scorePeers targetBooks m minScore =
     array_sort (\<lambda>a b. fsub (score b) (score a))
       (map (scoredPeer targetBooks)
          (filter (\<lambda>e. minScore \<le> jaccard targetBooks (snd e)) (Object_entries m)))"
  by (simp add: scorePeers_def scored_foldl)


lemma scorePeers_sorted:
  "sorted_wrt (\<lambda>a b. score a \<ge> score b) (scorePeers targetBooks allUserBooks minScore)"
proof -
  let ?xs = "map (scoredPeer targetBooks)
      (filter (\<lambda>e. minScore \<le> jaccard targetBooks (snd e)) (Object_entries allUserBooks))"
  have g: "\<forall>p \<in> set ?xs. onGrid (score p)"
    by (auto simp: scoredPeer_def onGrid_jaccard)
  have "sorted_wrt (\<lambda>a b. fsub (score b) (score a) \<le> 0)
          (array_sort (\<lambda>a b. fsub (score b) (score a)) ?xs)"
  proof (rule sorted_array_sort [where P = "\<lambda>p. onGrid (score p)"])
    show "fsub (score b) (score a) \<le> 0 \<or> fsub (score a) (score b) \<le> 0"
      if "onGrid (score a)" "onGrid (score b)" for a b :: "(string, 'a) peer"
      unfolding fsub_le [OF that(2) that(1)] fsub_le [OF that(1) that(2)] by linarith
    show "fsub (score c) (score a) \<le> 0"
      if "onGrid (score a)" "onGrid (score b)" "onGrid (score c)"
        "fsub (score b) (score a) \<le> 0" "fsub (score c) (score b) \<le> 0"
      for a b c :: "(string, 'a) peer"
      using that(4,5)
      unfolding fsub_le [OF that(2) that(1)] fsub_le [OF that(3) that(2)]
        fsub_le [OF that(3) that(1)] by linarith
    show "\<forall>p \<in> set ?xs. onGrid (score p)" by (rule g)
  qed
  then have s: "sorted_wrt (\<lambda>a b. fsub (score b) (score a) \<le> 0)
      (scorePeers targetBooks allUserBooks minScore)"
    by (simp only: scorePeers_eq)
  have o: "\<forall>p \<in> set (scorePeers targetBooks allUserBooks minScore). onGrid (score p)"
    unfolding scorePeers_eq set_array_sort by (rule g)
  show ?thesis
  proof (rule sorted_wrt_mono_rel [OF _ s])
    fix a b :: "(string, 'a) peer"
    assume "a \<in> set (scorePeers targetBooks allUserBooks minScore)"
      "b \<in> set (scorePeers targetBooks allUserBooks minScore)"
    with o have "onGrid (score a)" "onGrid (score b)" by simp_all
    then show "fsub (score b) (score a) \<le> 0 \<Longrightarrow> score b \<le> score a"
      by (simp only: fsub_le)
  qed
qed

lemmas entries_defs =
  Object_entries_def isArrayIndex_def codeUnits_def isDigit_def decimalValue_def digitValue_def

text \<open>
  Claim C2, as the code has it.  The peers returned are, with their sets, exactly the
  entries of the peer map whose Jaccard score against the target is at least \<open>minScore\<close>;
  each carries that score; and the list is in descending order of score, peers of equal
  score being adjacent in either order.
\<close>

theorem scorePeers_spec:
  "mset (map (\<lambda>p. (peerId p, books p)) (scorePeers targetBooks allUserBooks minScore)) =
     mset (filter (\<lambda>(pid, peerBooks). minScore \<le> jaccard targetBooks peerBooks) allUserBooks) \<and>
   (\<forall>p \<in> set (scorePeers targetBooks allUserBooks minScore).
      score p = jaccard targetBooks (books p) \<and> minScore \<le> score p) \<and>
   sorted_wrt (\<lambda>a b. score a \<ge> score b) (scorePeers targetBooks allUserBooks minScore)"
proof -
  let ?P = "\<lambda>e. minScore \<le> jaccard targetBooks (snd e)"
  have f: "filter (\<lambda>(pid, peerBooks). minScore \<le> jaccard targetBooks peerBooks) allUserBooks =
        filter ?P allUserBooks"
    by (rule filter_cong) auto
  have "mset (map (\<lambda>p. (peerId p, books p)) (scorePeers targetBooks allUserBooks minScore)) =
        image_mset (\<lambda>p. (peerId p, books p))
          (mset (map (scoredPeer targetBooks) (filter ?P (Object_entries allUserBooks))))"
    by (simp add: scorePeers_eq mset_array_sort)
  also have "\<dots> = mset (filter ?P (Object_entries allUserBooks))"
    by (simp add: scoredPeer_def multiset.map_comp comp_def)
  also have "\<dots> = mset (filter ?P allUserBooks)"
    by (simp only: mset_filter mset_Object_entries)
  finally have a: "mset (map (\<lambda>p. (peerId p, books p)) (scorePeers targetBooks allUserBooks minScore)) =
     mset (filter (\<lambda>(pid, peerBooks). minScore \<le> jaccard targetBooks peerBooks) allUserBooks)"
    by (simp only: f)
  have b: "\<forall>p \<in> set (scorePeers targetBooks allUserBooks minScore).
      score p = jaccard targetBooks (books p) \<and> minScore \<le> score p"
    by (auto simp: scorePeers_eq set_array_sort scoredPeer_def)
  from a b scorePeers_sorted [of targetBooks allUserBooks minScore] show ?thesis by blast
qed

theorem scorePeers_spec_witness:
  "scorePeers [1, 2, 3 :: nat] [(''B'', [1, 2, 4]), (''C'', [5]), (''D'', [1, 2, 3])] (1 / 10) =
     [\<lparr>peerId = ''D'', score = 1, books = [1, 2, 3]\<rparr>,
      \<lparr>peerId = ''B'', score = 1 / 2, books = [1, 2, 4]\<rparr>] \<and>
   sorted_wrt (\<lambda>a b. score a \<ge> score b)
     (scorePeers [1, 2, 3 :: nat] [(''B'', [1, 2, 4]), (''C'', [5]), (''D'', [1, 2, 3])] (1 / 10))"
proof -
  have e: "Object_entries [(''B'', [1, 2, 4 :: nat]), (''C'', [5]), (''D'', [1, 2, 3])] =
      [(''B'', [1, 2, 4]), (''C'', [5]), (''D'', [1, 2, 3])]"
    by (simp add: entries_defs)
  have "scorePeers [1, 2, 3 :: nat] [(''B'', [1, 2, 4]), (''C'', [5]), (''D'', [1, 2, 3])] (1 / 10) =
     [\<lparr>peerId = ''D'', score = 1, books = [1, 2, 3]\<rparr>,
      \<lparr>peerId = ''B'', score = 1 / 2, books = [1, 2, 4]\<rparr>]"
    unfolding scorePeers_def e by (simp add: jaccard_def has_def array_sort_def double_defs)
  moreover from scorePeers_spec [of "[1, 2, 3 :: nat]" "[(''B'', [1, 2, 4]), (''C'', [5]), (''D'', [1, 2, 3])]" "1 / 10"]
  have "sorted_wrt (\<lambda>a b. score a \<ge> score b)
     (scorePeers [1, 2, 3 :: nat] [(''B'', [1, 2, 4]), (''C'', [5]), (''D'', [1, 2, 3])] (1 / 10))"
    by blast
  ultimately show ?thesis by blast
qed

text \<open>
  The order is not strict: two peers with the same set as the target both score 1.
\<close>

theorem scorePeers_strict_counterexample:
  "\<not> sorted_wrt (\<lambda>a b. score a > score b)
       (scorePeers [1 :: nat] [(''B'', [1]), (''C'', [1])] (1 / 10))"
proof -
  have e: "Object_entries [(''B'', [1 :: nat]), (''C'', [1])] = [(''B'', [1]), (''C'', [1])]"
    by (simp add: entries_defs)
  show ?thesis
    unfolding scorePeers_def e by (simp add: jaccard_def has_def array_sort_def double_defs)
qed

text \<open>
  Peers whose identifiers are numerals are scored first, in numeric order, whatever the
  order of their rows: with equal scores, reader \<open>9\<close> comes before reader \<open>10\<close>, and both
  before reader \<open>U2\<close>.
\<close>

lemma scorePeers_numeric_ids:
  "map peerId (scorePeers [1 :: nat] [(''10'', [1]), (''9'', [1]), (''U2'', [1])] (1 / 10)) =
     [''9'', ''10'', ''U2'']"
proof -
  have e: "Object_entries [(''10'', [1 :: nat]), (''9'', [1]), (''U2'', [1])] =
      [(''9'', [1]), (''10'', [1]), (''U2'', [1])]"
    by (simp add: entries_defs)
  show ?thesis
    unfolding scorePeers_def e by (simp add: jaccard_def has_def array_sort_def double_defs)
qed

section \<open>Properties of the category resolver\<close>

lemma digits_small: "n < 10 \<Longrightarrow> digits n = [''0123456789'' ! n]"
  by (simp add: digits.simps)

lemma digits_large:
  "10 \<le> n \<Longrightarrow> digits n = digits (n div 10) @ [''0123456789'' ! (n mod 10)]"
  by (subst digits.simps) simp

lemmas parser_defs =
  parseFloat_def signPart_def isWhiteSpace_def isDigit_def decimalValue_def digitValue_def
  exponentPart_def scale10_def codeUnits_def Let_def

lemmas classifier_defs =
  deweyCategory_def parser_defs String_floor_def String_nat_def padStart_def specific_def
  less_number_def replicate_numeral digits_small digits_large floor_rat_minus_numeral_divide
  floor_rat_minus_one_divide double_defs

lemma specific_labels: "map_of specific p = Some label \<Longrightarrow> label \<noteq> []"
  by (auto simp: specific_def split: if_splits)

lemma deweyCategory_nonempty: "deweyCategory s \<noteq> []"
  unfolding deweyCategory_def Let_def
  by (auto split: option.split dest: specific_labels)

text \<open>
  Claim C3, as the code has it.  The resolver returns a non-empty label for every string,
  numeric or not.  \<open>005\<close> and \<open>005.1\<close> resolve to \<open>Technology & Computer Science\<close>,
  \<open>999\<close> to \<open>History, Geography & Biography\<close> and \<open>050\<close> to
  \<open>General & Computer Science\<close>.  \<open>0051\<close> is the number 51, whose three-digit prefix
  is \<open>051\<close>: it resolves to \<open>General & Computer Science\<close>.
\<close>

theorem deweyCategory_total:
  "deweyCategory s \<noteq> [] \<and>
   deweyCategory (codeUnits ''005'') = ''Technology & Computer Science'' \<and>
   deweyCategory (codeUnits ''005.1'') = ''Technology & Computer Science'' \<and>
   deweyCategory (codeUnits ''0051'') = ''General & Computer Science'' \<and>
   deweyCategory (codeUnits ''999'') = ''History, Geography & Biography'' \<and>
   deweyCategory (codeUnits ''050'') = ''General & Computer Science''"
proof -
  have "deweyCategory (codeUnits ''005'') = ''Technology & Computer Science''"
    by (simp add: classifier_defs)
  moreover have "deweyCategory (codeUnits ''005.1'') = ''Technology & Computer Science''"
    by (simp add: classifier_defs)
  moreover have "deweyCategory (codeUnits ''0051'') = ''General & Computer Science''"
    by (simp add: classifier_defs)
  moreover have "deweyCategory (codeUnits ''999'') = ''History, Geography & Biography''"
    by (simp add: classifier_defs)
  moreover have "deweyCategory (codeUnits ''050'') = ''General & Computer Science''"
    by (simp add: classifier_defs)
  ultimately show ?thesis using deweyCategory_nonempty [of s] by blast
qed

theorem deweyCategory_total_witness:
  "deweyCategory (codeUnits ''658.4'') \<noteq> [] \<and>
   deweyCategory (codeUnits ''658.4'') = ''Business & Management''"
proof -
  have "deweyCategory (codeUnits ''658.4'') = ''Business & Management''"
    by (simp add: classifier_defs)
  with deweyCategory_total [of "codeUnits ''658.4''"] show ?thesis by blast
qed

text \<open>The code \<open>0051\<close> does not resolve to \<open>Technology & Computer Science\<close>.\<close>

theorem deweyCategory_0051_counterexample:
  "parseFloat (codeUnits ''0051'') = Finite 51 \<and>
   deweyCategory (codeUnits ''0051'') \<noteq> ''Technology & Computer Science''"
  by (simp add: classifier_defs)

text \<open>
  The resolver on numerals that the rounding to a double changes, on a numeral beyond the
  doubles, and on white space outside ASCII: \<open>4.999999999999999999\<close> is the number 5,
  \<open>15299999999999999999\<close> is the number \<open>15300000000000000000\<close>, \<open>1e400\<close> is
  \<open>Infinity\<close>, and a no-break space or a byte order mark before \<open>005\<close> is skipped.
\<close>

lemma deweyCategory_rounded:
  "parseFloat (codeUnits ''4.999999999999999999'') = Finite 5"
  "deweyCategory (codeUnits ''4.999999999999999999'') = ''Technology & Computer Science''"
  "parseFloat (codeUnits ''15299999999999999999'') = Finite 15300000000000000000"
  "deweyCategory (codeUnits ''15299999999999999999'') = ''Cognitive Psychology''"
  by (simp_all add: classifier_defs)

lemma deweyCategory_overflow:
  "parseFloat (codeUnits ''1e400'') = PosInfinity"
  "deweyCategory (codeUnits ''1e400'') = ''History, Geography & Biography''"
  "parseFloat (codeUnits ''-1e400'') = NegInfinity"
  "deweyCategory (codeUnits ''-1e400'') = ''General & Computer Science''"
proof -
  have "(2::rat) powi 1024 \<le> 10 ^ 400" by simp
  then have "2 powi 1024 \<le> roundDouble (10 ^ 400)" by (rule roundDouble_above) simp
  then have h: "2 ^ 1024 \<le> roundDouble (10 ^ 400)" by simp
  from h show p: "parseFloat (codeUnits ''1e400'') = PosInfinity"
    by (simp add: parser_defs)
  from h show n: "parseFloat (codeUnits ''-1e400'') = NegInfinity"
    by (simp add: parser_defs)
  show "deweyCategory (codeUnits ''1e400'') = ''History, Geography & Biography''"
    unfolding deweyCategory_def p
    by (simp add: String_floor_def padStart_def specific_def less_number_def)
  show "deweyCategory (codeUnits ''-1e400'') = ''General & Computer Science''"
    unfolding deweyCategory_def n
    by (simp add: String_floor_def padStart_def specific_def less_number_def)
qed

lemma deweyCategory_white_space:
  "deweyCategory (0xA0 # codeUnits ''005'') = ''Technology & Computer Science''"
  "deweyCategory (0xFEFF # 0x2003 # codeUnits ''005'') = ''Technology & Computer Science''"
  by (simp_all add: classifier_defs)

text \<open>
  \<open>parseFloat\<close> yields \<open>NaN\<close> exactly for the strings that do not begin with a number.
\<close>

lemma signPart_snd:
  "snd (signPart t) =
     (case t of
        [] \<Rightarrow> []
      | c # r \<Rightarrow> if c = of_char CHR ''+'' \<or> c = of_char CHR ''-'' then r else t)"
  by (auto simp: signPart_def split: list.splits)

lemma parseFloat_NaN_iff: "parseFloat s = NaN \<longleftrightarrow> \<not> beginsWithNumber s"
proof -
  obtain neg u where su: "signPart (dropWhile isWhiteSpace s) = (neg, u)"
    by (cases "signPart (dropWhile isWhiteSpace s)")
  then have u: "u = snd (signPart (dropWhile isWhiteSpace s))" by simp
  have b: "beginsWithNumber s \<longleftrightarrow>
      take 8 u = codeUnits ''Infinity'' \<or>
      (case u of
         [] \<Rightarrow> False
       | c # r \<Rightarrow>
           isDigit c \<or>
           (c = of_char CHR ''.'' \<and> (case r of [] \<Rightarrow> False | d # r' \<Rightarrow> isDigit d)))"
    unfolding beginsWithNumber_def Let_def u signPart_snd ..
  show ?thesis
  proof (cases u)
    case Nil
    with su show ?thesis unfolding b by (simp add: parseFloat_def codeUnits_def)
  next
    case (Cons c t)
    show ?thesis
    proof (cases "isDigit c")
      case True
      with su Cons show ?thesis
        unfolding b by (auto simp: parseFloat_def Let_def split: list.splits prod.splits)
    next
      case False
      note nd = this
      show ?thesis
      proof (cases "c = of_char CHR ''.''")
        case True
        with su Cons nd show ?thesis
          unfolding b by (cases t) (auto simp: parseFloat_def Let_def isDigit_def)
      next
        case False
        with su Cons nd show ?thesis
          unfolding b by (auto simp: parseFloat_def Let_def)
      qed
    qed
  qed
qed

text \<open>
  Claim C8, as the code has it.  For every string that does not begin with a number (after
  the leading white space and an optional sign it goes on neither with \<open>Infinity\<close>, nor
  with a digit, nor with a point and a digit), parsing yields \<open>NaN\<close>, the prefix \<open>NaN\<close>
  matches no override, no threshold comparison holds, and the resolver returns
  \<open>History, Geography & Biography\<close>.
\<close>

theorem deweyCategory_NaN:
  assumes "\<not> beginsWithNumber s"
  shows "parseFloat s = NaN \<and>
         String_floor (parseFloat s) = ''NaN'' \<and>
         map_of specific (take 3 (padStart 3 CHR ''0'' (String_floor (parseFloat s)))) = None \<and>
         (\<forall>k. \<not> less_number (parseFloat s) k) \<and>
         deweyCategory s = ''History, Geography & Biography''"
proof -
  from assms have "parseFloat s = NaN" by (simp add: parseFloat_NaN_iff)
  then show ?thesis
    by (simp add: deweyCategory_def String_floor_def padStart_def specific_def less_number_def)
qed

theorem deweyCategory_NaN_witness:
  "\<not> beginsWithNumber (codeUnits ''N/A'') \<and> parseFloat (codeUnits ''N/A'') = NaN \<and>
   deweyCategory (codeUnits ''N/A'') = ''History, Geography & Biography'' \<and>
   \<not> beginsWithNumber [] \<and> deweyCategory [] = ''History, Geography & Biography'' \<and>
   \<not> beginsWithNumber (0xA0 # codeUnits ''-.e5'') \<and>
   deweyCategory (0xA0 # codeUnits ''-.e5'') = ''History, Geography & Biography''"
proof -
  have a: "\<not> beginsWithNumber (codeUnits ''N/A'')" and b: "\<not> beginsWithNumber []"
    and c: "\<not> beginsWithNumber (0xA0 # codeUnits ''-.e5'')"
    by (simp_all add: beginsWithNumber_def codeUnits_def isWhiteSpace_def isDigit_def)
  from deweyCategory_NaN [OF a] deweyCategory_NaN [OF b] deweyCategory_NaN [OF c] a b c
  show ?thesis by blast
qed

text \<open>
  A malformed code that begins with digits is read as the number those digits spell:
  \<open>12abc\<close> is not a numeral, parses to 12, and resolves to \<open>General & Computer Science\<close>.
\<close>

theorem deweyCategory_malformed_counterexample:
  "\<not> list_all (\<lambda>c. isDigit c \<or> c = of_char CHR ''.'') (codeUnits ''12abc'') \<and>
   parseFloat (codeUnits ''12abc'') = Finite 12 \<and>
   deweyCategory (codeUnits ''12abc'') = ''General & Computer Science''"
  by (simp add: classifier_defs)

section \<open>Rounding of the match score\<close>

lemma digit_char:
  "j < 10 \<Longrightarrow>
   isDigit (of_char (''0123456789'' ! j)) \<and> digitValue (of_char (''0123456789'' ! j)) = j"
proof -
  assume "j < 10"
  then have "j \<in> {0, 1, 2, 3, 4, 5, 6, 7, 8, 9}" by auto
  then show ?thesis
    by (auto simp: isDigit_def digitValue_def)
qed

lemma digits_all: "list_all isDigit (codeUnits (digits n))"
proof (induction n rule: digits.induct)
  case (1 n)
  show ?case
  proof (cases "n < 10")
    case True
    then show ?thesis by (simp add: digits_small digit_char codeUnits_def)
  next
    case False
    then have "list_all isDigit (codeUnits (digits (n div 10)))" by (rule "1.IH")
    moreover have "isDigit (of_char (''0123456789'' ! (n mod 10)))" by (simp add: digit_char)
    ultimately show ?thesis using False by (simp add: digits_large codeUnits_def)
  qed
qed

lemma digits_nonempty: "digits n \<noteq> []"
  by (subst digits.simps) simp

lemma decimalValue_snoc: "decimalValue (xs @ [c]) = 10 * decimalValue xs + digitValue c"
  by (simp add: decimalValue_def)

lemma decimalValue_digits: "decimalValue (codeUnits (digits n)) = n"
proof (induction n rule: digits.induct)
  case (1 n)
  show ?case
  proof (cases "n < 10")
    case True
    then show ?thesis by (simp add: digits_small decimalValue_def digit_char codeUnits_def)
  next
    case False
    then have "decimalValue (codeUnits (digits (n div 10))) = n div 10" by (rule "1.IH")
    with False show ?thesis
      by (simp add: digits_large decimalValue_snoc digit_char codeUnits_def)
  qed
qed

lemma decimalValue_zeros:
  "decimalValue (replicate z (of_char CHR ''0'') @ ds) = decimalValue ds"
proof -
  have "foldl (\<lambda>n c. 10 * n + digitValue c) 0 (replicate z (of_char CHR ''0'')) = 0"
    by (induction z) (simp_all add: replicate_append_same [symmetric] digitValue_def)
  then show ?thesis by (simp add: decimalValue_def)
qed

lemma digit_not_special:
  assumes "isDigit c"
  shows "\<not> isWhiteSpace c" "c \<noteq> of_char CHR ''-''" "c \<noteq> of_char CHR ''+''"
    "c \<noteq> of_char CHR ''.''" "c \<noteq> of_char CHR ''I''"
  using assms by (auto simp: isDigit_def isWhiteSpace_def)

text \<open>Parsing a literal made of an optional minus sign and digits, with or without a fraction.\<close>

lemma parseFloat_literal:
  assumes sg: "sg = [] \<and> \<not> neg \<or> sg = [of_char CHR ''-''] \<and> neg"
    and ip: "ip \<noteq> []" "list_all isDigit ip" and fp: "list_all isDigit fp"
    and t: "t = [] \<and> fp = [] \<or> t = of_char CHR ''.'' # fp"
  shows "parseFloat (sg @ ip @ t) =
           (let v = roundDouble (of_nat (decimalValue (ip @ fp)) / 10 ^ length fp)
            in if 2 ^ 1024 \<le> v then (if neg then NegInfinity else PosInfinity)
               else Finite (if neg then - v else v))"
proof -
  from ip obtain c cs where c: "ip = c # cs" "isDigit c" by (cases ip) auto
  have w: "dropWhile isWhiteSpace (sg @ ip @ t) = sg @ ip @ t"
    using sg c digit_not_special(1) [OF c(2)] by (auto simp: isWhiteSpace_def)
  have s: "signPart (sg @ ip @ t) = (neg, ip @ t)"
    using sg c digit_not_special(2,3) [OF c(2)] by (auto simp: signPart_def)
  have i: "take 8 (ip @ t) \<noteq> codeUnits ''Infinity''"
    using c digit_not_special(5) [OF c(2)] by (auto simp: codeUnits_def)
  have nd: "t = [] \<or> \<not> isDigit (hd t)"
    using t by (auto simp: isDigit_def)
  have tw: "takeWhile isDigit (ip @ t) = ip"
    using ip(2) nd by (cases t) (auto simp: list_all_iff takeWhile_append2 takeWhile_eq_all_conv)
  have dw: "dropWhile isDigit (ip @ t) = t"
    using ip(2) nd by (cases t) (auto simp: list_all_iff dropWhile_append2 dropWhile_eq_Nil_conv)
  have f1: "takeWhile isDigit fp = fp" using fp by (simp add: list_all_iff takeWhile_eq_all_conv)
  have f2: "dropWhile isDigit fp = []" using fp by (simp add: list_all_iff dropWhile_eq_Nil_conv)
  have main: "parseFloat (sg @ ip @ t) =
      (case (case t of
               [] \<Rightarrow> ([], t)
             | c # t' \<Rightarrow>
                 if c = of_char CHR ''.'' then (takeWhile isDigit t', dropWhile isDigit t')
                 else ([], t)) of
         (fp', r2) \<Rightarrow>
           (let v = roundDouble (scale10 (of_nat (decimalValue (ip @ fp')) / 10 ^ length fp')
                                   (exponentPart r2))
            in if 2 ^ 1024 \<le> v then (if neg then NegInfinity else PosInfinity)
               else Finite (if neg then - v else v)))"
    unfolding parseFloat_def w s using i by (simp add: tw dw Let_def ip(1) split: prod.split)
  from t show ?thesis
  proof
    assume "t = [] \<and> fp = []"
    then show ?thesis
      unfolding main by (simp add: exponentPart_def scale10_def)
  next
    assume "t = of_char CHR ''.'' # fp"
    then show ?thesis
      unfolding main by (simp add: f1 f2 exponentPart_def scale10_def)
  qed
qed

text \<open>
  \<open>parseFloat\<close> reads back what \<open>toFixed\<close> writes: the double nearest to the number
  rounded to \<open>f\<close> decimals.
\<close>

lemma parseFloat_toFixed:
  "parseFloat (codeUnits (toFixed f x)) =
     (let v = roundDouble (of_nat (nat \<lfloor>\<bar>x\<bar> * 10 ^ f + 1 / 2\<rfloor>) / 10 ^ f)
      in if 2 ^ 1024 \<le> v then (if x < 0 then NegInfinity else PosInfinity)
         else Finite (if x < 0 then - v else v))"
proof -
  define n where "n = nat \<lfloor>\<bar>x\<bar> * 10 ^ f + 1 / 2\<rfloor>"
  define m where "m = replicate (Suc f - length (digits n)) CHR ''0'' @ digits n"
  define k where "k = length m - f"
  define sg where "sg = (if x < 0 then ''-'' else [])"
  define t where "t = (if f = 0 then [] else CHR ''.'' # drop k m)"
  have len: "Suc f \<le> length m" by (simp add: m_def)
  have md: "list_all isDigit (codeUnits m)"
    using digits_all [of n] by (auto simp: m_def isDigit_def list_all_iff codeUnits_def)
  have tf: "codeUnits (toFixed f x) = codeUnits sg @ codeUnits (take k m) @ codeUnits t"
    by (simp add: toFixed_def Let_def n_def m_def k_def sg_def t_def codeUnits_def)
  have sg: "codeUnits sg = [] \<and> \<not> x < 0 \<or> codeUnits sg = [of_char CHR ''-''] \<and> x < 0"
    by (simp add: sg_def codeUnits_def)
  have ip: "codeUnits (take k m) \<noteq> []" using len by (auto simp: k_def codeUnits_def)
  have ipd: "list_all isDigit (codeUnits (take k m))"
    using md by (auto simp: list_all_iff codeUnits_def dest: in_set_takeD)
  have fpd: "list_all isDigit (codeUnits (drop k m))"
    using md by (auto simp: list_all_iff codeUnits_def dest: in_set_dropD)
  have tt: "codeUnits t = [] \<and> codeUnits (drop k m) = [] \<or>
            codeUnits t = of_char CHR ''.'' # codeUnits (drop k m)"
    by (simp add: t_def k_def codeUnits_def)
  have lf: "length (codeUnits (drop k m)) = f" using len by (simp add: k_def codeUnits_def)
  have "codeUnits (take k m) @ codeUnits (drop k m) = codeUnits m"
    by (simp add: codeUnits_def flip: map_append)
  also have "\<dots> = replicate (Suc f - length (digits n)) (of_char CHR ''0'') @ codeUnits (digits n)"
    by (simp add: m_def codeUnits_def)
  finally have dv: "decimalValue (codeUnits (take k m) @ codeUnits (drop k m)) = n"
    by (simp only: decimalValue_zeros decimalValue_digits)
  from parseFloat_literal [OF sg ip ipd fpd tt] show ?thesis
    unfolding tf dv lf n_def by simp
qed



text \<open>
  The match score of a weighted score below \<open>10^21\<close>, where \<open>toFixed\<close> writes digits.
\<close>

lemma roundedScore_value:
  assumes "\<bar>w\<bar> < 10 ^ 21"
  shows "roundedScore w =
           (if w < 0 then - 1 else 1) * roundDouble (of_int \<lfloor>\<bar>w\<bar> * 10000 + 1 / 2\<rfloor> / 10000)"
proof -
  let ?q = "rat_of_int \<lfloor>\<bar>w\<bar> * 10000 + 1 / 2\<rfloor> / 10000"
  have "0 \<le> \<lfloor>\<bar>w\<bar> * 10000 + 1 / 2\<rfloor>" by simp
  then have n: "rat_of_nat (nat \<lfloor>\<bar>w\<bar> * 10000 + 1 / 2\<rfloor>) = of_int \<lfloor>\<bar>w\<bar> * 10000 + 1 / 2\<rfloor>"
    by (metis of_int_of_nat_eq of_nat_nat)
  have q0: "0 \<le> ?q" by simp
  have "rat_of_int \<lfloor>\<bar>w\<bar> * 10000 + 1 / 2\<rfloor> \<le> \<bar>w\<bar> * 10000 + 1 / 2" by (rule of_int_floor_le)
  then have "?q \<le> \<bar>w\<bar> + 1 / 20000" by simp
  also from assms have "\<dots> < 10 ^ 21 + 1" by simp
  also have "\<dots> < (2::rat) powi 70" by simp
  finally have q1: "?q < 2 powi 70" .
  have "roundDouble ?q \<le> 2 powi 70"
  proof (cases "?q = 0")
    case True
    then show ?thesis by (simp add: roundDouble_0)
  next
    case False
    with q0 have "0 < ?q" by (metis order_le_less)
    from roundDouble_below [OF this q1] show ?thesis by simp
  qed
  also have "(2::rat) powi 70 < 2 ^ 1024" by simp
  finally have "\<not> 2 ^ 1024 \<le> roundDouble ?q" by simp
  then show ?thesis
    using parseFloat_toFixed [of 4 w] by (simp add: roundedScore_def n Let_def)
qed

text \<open>
  The weighted score of a book that a peer of score \<open>1/5\<close> and a peer of score \<open>11/32\<close>
  have read is the double just below \<open>0.54375\<close>, and its match score is \<open>0.5437\<close>.
\<close>

lemma roundedScore_below_tie:
  "fadd (fadd 0 (fdiv 1 5)) (fdiv 11 32) < 87 / 160"
  "roundedScore (fadd (fadd 0 (fdiv 1 5)) (fdiv 11 32)) = roundDouble (5437 / 10000)"
  by (simp_all add: roundedScore_def toFixed_def classifier_defs)

section \<open>Properties of the recommendation pipeline\<close>

lemma distinct_add: "distinct s \<Longrightarrow> distinct (add s x)"
  by (simp add: add_def has_def)

lemma distinct_new_Set_aux: "distinct s \<Longrightarrow> distinct (foldl add s xs)"
  by (induction xs arbitrary: s) (simp_all add: distinct_add)

lemma distinct_new_Set: "distinct (new_Set xs)"
  by (simp add: new_Set_def distinct_new_Set_aux)

lemma set_new_Set_aux: "set (foldl add s xs) = set s \<union> set xs"
  by (induction xs arbitrary: s) (auto simp: add_def has_def)

lemma set_new_Set: "set (new_Set xs) = set xs"
  by (simp add: new_Set_def set_new_Set_aux)

lemma distinct_getBorrowedBooks: "distinct (getBorrowedBooks d uid)"
  by (simp add: getBorrowedBooks_def distinct_new_Set)

lemma set_Map_set: "set (Map_set m k v) \<subseteq> insert (k, v) (set m)"
  by (auto simp: Map_set_def split: if_splits)

lemma Map_set_nonempty: "Map_set m k v \<noteq> []"
  by (auto simp: Map_set_def Map_has_def)

text \<open>
  The callback of the grouping, case by case: a reader already met gets one more book; a
  reader whose identifier names a property of \<open>Object.prototype\<close> ends the call with a
  \<open>TypeError\<close>; any other reader gets a new set with the book.
\<close>

lemma groupRow_cases:
  "groupRow m row =
     (case map_of m (loan_user_id row) of
        Some books' \<Rightarrow> Inr (Map_set m (loan_user_id row) (add books' (loan_book_id row)))
      | None \<Rightarrow>
          if loan_user_id row \<in> set objectPrototypeKeys then Inl TypeError
          else Inr (Map_set (Map_set m (loan_user_id row) []) (loan_user_id row)
                      (add [] (loan_book_id row))))"
  by (simp add: groupRow_def Object_get_def map_of_Map_set split: option.split)

lemma groupRow_distinct:
  assumes "groupRow m row = Inr m'" and "\<forall>(u, bs) \<in> set m. distinct bs"
  shows "\<forall>(u, bs) \<in> set m'. distinct bs"
proof (cases "map_of m (loan_user_id row)")
  case None
  with assms(1) have m': "m' = Map_set (Map_set m (loan_user_id row) []) (loan_user_id row)
      (add [] (loan_book_id row))"
    by (simp add: groupRow_cases split: if_splits)
  have "set m' \<subseteq> {(loan_user_id row, add [] (loan_book_id row)), (loan_user_id row, [])} \<union> set m"
    unfolding m'
    using set_Map_set [of "Map_set m (loan_user_id row) []" "loan_user_id row"
        "add [] (loan_book_id row)"]
      set_Map_set [of m "loan_user_id row" "[]"]
    by blast
  moreover have "distinct (add [] (loan_book_id row))" by (simp add: distinct_add)
  ultimately show ?thesis using assms(2) by auto
next
  case (Some books')
  with assms(1) have m': "m' = Map_set m (loan_user_id row) (add books' (loan_book_id row))"
    by (simp add: groupRow_cases)
  from Some have "(loan_user_id row, books') \<in> set m" by (rule map_of_SomeD)
  with assms(2) have "distinct books'" by auto
  then have "distinct (add books' (loan_book_id row))" by (rule distinct_add)
  with assms(2) set_Map_set [of m "loan_user_id row" "add books' (loan_book_id row)"]
  show ?thesis unfolding m' by auto
qed

lemma groupRow_nonempty: "groupRow m row \<noteq> Inr []"
  by (simp add: groupRow_cases Map_set_nonempty split: option.split)

lemma group_fold_Inl:
  "foldl (\<lambda>acc row. case acc of Inl e \<Rightarrow> Inl e | Inr m \<Rightarrow> groupRow m row) (Inl e) rows = Inl e"
  by (induction rows) simp_all

lemma group_fold_distinct:
  assumes "foldl (\<lambda>acc row. case acc of Inl e \<Rightarrow> Inl e | Inr m \<Rightarrow> groupRow m row)
             (Inr m0) rows = Inr m"
    and "\<forall>(u, bs) \<in> set m0. distinct bs"
  shows "\<forall>(u, bs) \<in> set m. distinct bs"
  using assms
proof (induction rows arbitrary: m0)
  case Nil
  then show ?case by simp
next
  case (Cons row rows)
  show ?case
  proof (cases "groupRow m0 row")
    case (Inl e)
    with Cons.prems(1) show ?thesis by (simp add: group_fold_Inl)
  next
    case (Inr m1)
    from groupRow_distinct [OF Inr Cons.prems(2)] Cons.prems(1) Inr
    show ?thesis by (intro Cons.IH [of m1]) simp_all
  qed
qed

lemma group_fold_nonempty:
  "rows \<noteq> [] \<Longrightarrow>
   foldl (\<lambda>acc row. case acc of Inl e \<Rightarrow> Inl e | Inr m \<Rightarrow> groupRow m row) acc rows \<noteq> Inr []"
proof (induction rows arbitrary: acc rule: rev_induct)
  case Nil
  then show ?case by simp
next
  case (snoc row rows)
  show ?case
    by (simp add: groupRow_nonempty split: sum.split)
qed

text \<open>
  The peer map is built exactly when no other reader with a loan has an identifier that
  names a property of \<open>Object.prototype\<close>; otherwise the call ends with a \<open>TypeError\<close>.
\<close>

lemma groupRow_keys:
  assumes "groupRow m row = Inr m'"
  shows "set (map fst m') = insert (loan_user_id row) (set (map fst m))"
    and "loan_user_id row \<in> set (map fst m) \<or> loan_user_id row \<notin> set objectPrototypeKeys"
proof -
  show "set (map fst m') = insert (loan_user_id row) (set (map fst m))"
  proof (cases "map_of m (loan_user_id row)")
    case None
    then have "loan_user_id row \<notin> set (map fst m)" by (simp add: map_of_eq_None_iff)
    with assms None show ?thesis
      by (auto simp: groupRow_cases keys_Map_set simp del: set_map split: if_splits)
  next
    case (Some books')
    then have "loan_user_id row \<in> set (map fst m)"
      by (metis map_of_eq_None_iff option.distinct(1) set_map)
    with assms Some show ?thesis
      by (auto simp: groupRow_cases keys_Map_set simp del: set_map)
  qed
  show "loan_user_id row \<in> set (map fst m) \<or> loan_user_id row \<notin> set objectPrototypeKeys"
  proof (cases "map_of m (loan_user_id row)")
    case None
    with assms show ?thesis by (auto simp: groupRow_cases split: if_splits)
  next
    case (Some books')
    then have "loan_user_id row \<in> set (map fst m)"
      by (metis map_of_eq_None_iff option.distinct(1) set_map)
    then show ?thesis by simp
  qed
qed

lemma group_fold_Inr_iff:
  assumes "set (map fst m0) \<inter> set objectPrototypeKeys = {}"
  shows "(\<exists>m. foldl (\<lambda>acc row. case acc of Inl e \<Rightarrow> Inl e | Inr m \<Rightarrow> groupRow m row)
                 (Inr m0) rows = Inr m) \<longleftrightarrow>
         (\<forall>row \<in> set rows. loan_user_id row \<notin> set objectPrototypeKeys)"
  using assms
proof (induction rows arbitrary: m0)
  case Nil
  then show ?case by simp
next
  case (Cons row rows)
  show ?case
  proof (cases "loan_user_id row \<in> set objectPrototypeKeys")
    case True
    with Cons.prems have "loan_user_id row \<notin> set (map fst m0)" by blast
    then have "map_of m0 (loan_user_id row) = None" by (simp add: map_of_eq_None_iff)
    with True have "groupRow m0 row = Inl TypeError" by (simp add: groupRow_cases)
    with True show ?thesis by (simp add: group_fold_Inl)
  next
    case False
    then have "\<exists>m1. groupRow m0 row = Inr m1"
      by (cases "map_of m0 (loan_user_id row)") (simp_all add: groupRow_cases)
    then obtain m1 where m1: "groupRow m0 row = Inr m1" ..
    from groupRow_keys(1) [OF m1] False Cons.prems
    have "set (map fst m1) \<inter> set objectPrototypeKeys = {}" by auto
    from Cons.IH [OF this] m1 False show ?thesis by simp
  qed
qed

lemma getAllUserBooks_Inr_iff:
  "(\<exists>m. getAllUserBooks d uid = Inr m) \<longleftrightarrow>
   (\<forall>l \<in> set (loans_table d).
      loan_user_id l = uid \<or> loan_user_id l \<notin> set objectPrototypeKeys)"
proof -
  have "(\<exists>m. getAllUserBooks d uid = Inr m) \<longleftrightarrow>
      (\<forall>row \<in> set (sort_key loan_user_id
                          (filter (\<lambda>l. loan_user_id l \<noteq> uid) (loans_table d))).
         loan_user_id row \<notin> set objectPrototypeKeys)"
    unfolding getAllUserBooks_def Let_def by (rule group_fold_Inr_iff) simp
  then show ?thesis by auto
qed

lemma getAllUserBooks_error:
  "getAllUserBooks d uid = Inl e \<Longrightarrow> e = TypeError"
proof -
  have "foldl (\<lambda>acc row. case acc of Inl e \<Rightarrow> Inl e | Inr m \<Rightarrow> groupRow m row) acc rows = Inl e
        \<Longrightarrow> acc = Inl e \<or> e = TypeError" for acc rows
  proof (induction rows arbitrary: acc)
    case Nil
    then show ?case by simp
  next
    case (Cons row rows)
    from Cons.IH [OF Cons.prems [simplified]] show ?case
      by (auto simp: groupRow_cases split: sum.splits option.splits if_splits)
  qed
  from this [of "Inr []"] show "getAllUserBooks d uid = Inl e \<Longrightarrow> e = TypeError"
    by (simp add: getAllUserBooks_def)
qed

lemma distinct_getAllUserBooks:
  assumes "getAllUserBooks d uid = Inr m" and "(u, bs) \<in> set m"
  shows "distinct bs"
proof -
  from assms(1) have "\<forall>(u, bs) \<in> set m. distinct bs"
    unfolding getAllUserBooks_def Let_def by (rule group_fold_distinct) simp
  with assms(2) show ?thesis by auto
qed

lemma getAllUserBooks_empty_iff:
  "getAllUserBooks d uid = Inr [] \<longleftrightarrow> (\<forall>l \<in> set (loans_table d). loan_user_id l = uid)"
proof
  assume e: "getAllUserBooks d uid = Inr []"
  show "\<forall>l \<in> set (loans_table d). loan_user_id l = uid"
  proof (rule ccontr)
    assume "\<not> (\<forall>l \<in> set (loans_table d). loan_user_id l = uid)"
    then have "filter (\<lambda>l. loan_user_id l \<noteq> uid) (loans_table d) \<noteq> []"
      by (auto simp: filter_empty_conv)
    then have "sort_key loan_user_id (filter (\<lambda>l. loan_user_id l \<noteq> uid) (loans_table d)) \<noteq> []"
      by (metis length_0_conv length_sort)
    from group_fold_nonempty [OF this] e show False
      by (simp add: getAllUserBooks_def)
  qed
next
  assume "\<forall>l \<in> set (loans_table d). loan_user_id l = uid"
  then have "filter (\<lambda>l. loan_user_id l \<noteq> uid) (loans_table d) = []"
    by (auto simp: filter_empty_conv)
  then show "getAllUserBooks d uid = Inr []" by (simp add: getAllUserBooks_def)
qed

text \<open>
  On the way through \<open>getRecommendations\<close> the sets handed to \<open>jaccard\<close> and to the
  aggregator are sets: no list repeats an element.
\<close>

lemma pipeline_sets:
  assumes "getAllUserBooks d uid = Inr allUserBooks"
  shows "distinct (getBorrowedBooks d uid) \<and>
   (\<forall>p \<in> set (take n (scorePeers (getBorrowedBooks d uid) allUserBooks minScore)).
      distinct (books p))"
proof -
  have "distinct (books p)"
    if "p \<in> set (scorePeers (getBorrowedBooks d uid) allUserBooks minScore)" for p
  proof -
    from that obtain e where "e \<in> set allUserBooks" "p = scoredPeer (getBorrowedBooks d uid) e"
      by (auto simp: scorePeers_eq set_array_sort set_Object_entries)
    then show ?thesis
      using distinct_getAllUserBooks [OF assms, of "fst e" "snd e"] by (simp add: scoredPeer_def)
  qed
  then show ?thesis
    using distinct_getBorrowedBooks by (auto dest: in_set_takeD)
qed









lemma coldStartFallback_rows:
  assumes "r \<in> set (coldStartFallback d uid limit)"
  shows "fallback r = Some ''cold_start_popularity'' \<and> match_score r = 0 \<and> recommended_by r = []"
  using assms by (auto simp: coldStartFallback_def fallbackRow_def Let_def)


text \<open>The example store, evaluated.\<close>

lemmas example_defs = exampleDb_def exampleBook_def exampleLoan_def

lemmas grouping_defs =
  getAllUserBooks_def groupRow_def Object_get_def objectPrototypeKeys_def Map_has_def
  Map_get_def Map_set_def add_def has_def


lemma example_no_history: "getBorrowedBooks exampleDb ''U3'' = []"
  by (simp add: getBorrowedBooks_def example_defs new_Set_def)











text \<open>
  A reader whose identifier is \<open>toString\<close>: the grouping reads the inherited function
  under that key, stores no set, and the call of \<open>add\<close> throws.  The recommendation for
  reader \<open>U1\<close> ends with that error.
\<close>

lemma inherited_key_TypeError:
  "getAllUserBooks inheritedKeyDb ''U1'' = Inl TypeError"
  "getRecommendations (\<lambda>s. s) inheritedKeyDb ''U1'' \<lparr>opts_limit = None, opts_minScore = None\<rparr> =
     Inl TypeError"
proof -
  show a: "getAllUserBooks inheritedKeyDb ''U1'' = Inl TypeError"
    by (simp add: grouping_defs inheritedKeyDb_def example_defs)
  have "getBorrowedBooks inheritedKeyDb ''U1'' = [''B0'']"
    by (simp add: getBorrowedBooks_def inheritedKeyDb_def example_defs new_Set_def add_def has_def)
  with a show "getRecommendations (\<lambda>s. s) inheritedKeyDb ''U1''
      \<lparr>opts_limit = None, opts_minScore = None\<rparr> = Inl TypeError"
    by (simp add: getRecommendations_def)
qed

text \<open>
  Readers \<open>10\<close> and \<open>9\<close>: the rows arrive in the order of the strings, \<open>10\<close> first,
  and the properties of the peer map are created in that order; \<open>Object.entries\<close> lists
  \<open>9\<close> before \<open>10\<close>, so with equal scores reader \<open>9\<close> is the first contributor.
\<close>

lemma numeric_ids_example:
  "getAllUserBooks numericIdsDb ''U1'' =
     Inr [(''10'', [''B0'', ''B1'']), (''9'', [''B0'', ''B1''])]"
  "getRecommendations (\<lambda>s. s) numericIdsDb ''U1'' \<lparr>opts_limit = None, opts_minScore = None\<rparr> =
     Inr [\<lparr>book_id = ''B1'', title = ''Rework'', author = ''Author'', dewey_decimal = ''005.1'',
           match_score = 1, recommended_by = [''9'', ''10''], fallback = None\<rparr>]"
proof -
  show m: "getAllUserBooks numericIdsDb ''U1'' =
      Inr [(''10'', [''B0'', ''B1'']), (''9'', [''B0'', ''B1''])]"
    by (simp add: grouping_defs numericIdsDb_def example_defs)
  have t: "getBorrowedBooks numericIdsDb ''U1'' = [''B0'']"
    by (simp add: getBorrowedBooks_def numericIdsDb_def example_defs new_Set_def add_def has_def)
  have e: "Object_entries [(''10'', [''B0'', ''B1'']), (''9'', [''B0'', ''B1''])] =
      [(''9'', [''B0'', ''B1'']), (''10'', [''B0'', ''B1''])]"
    by (simp add: entries_defs)
  have s: "scorePeers [''B0''] [(''10'', [''B0'', ''B1'']), (''9'', [''B0'', ''B1''])]
             MIN_SIMILARITY =
      [\<lparr>peerId = ''9'', score = 1 / 2, books = [''B0'', ''B1'']\<rparr>,
       \<lparr>peerId = ''10'', score = 1 / 2, books = [''B0'', ''B1'']\<rparr>]"
    unfolding scorePeers_def e
    by (simp add: jaccard_def has_def array_sort_def MIN_SIMILARITY_def double_defs)
  have c: "aggregateCandidates
      [\<lparr>peerId = ''9'', score = 1 / 2, books = [''B0'', ''B1'']\<rparr>,
       \<lparr>peerId = ''10'', score = 1 / 2, books = [''B0'', ''B1'']\<rparr>] [''B0''] =
      [(''B1'', \<lparr>weightedScore = 1, recommendedBy = [''9'', ''10'']\<rparr>)]"
    by (simp add: aggregateCandidates_def addCandidate_def has_def Map_has_def Map_get_def
        Map_set_def double_defs)
  have r: "roundedScore 1 = 1"
    by (simp add: roundedScore_def toFixed_def classifier_defs)
  have "getRecommendations (\<lambda>s. s) numericIdsDb ''U1'' \<lparr>opts_limit = None, opts_minScore = None\<rparr> =
      enrichAndRank (\<lambda>s. s) numericIdsDb
        [(''B1'', \<lparr>weightedScore = 1, recommendedBy = [''9'', ''10'']\<rparr>)] 10"
    by (simp add: getRecommendations_def t m limitOf_def minScoreOf_def MAX_RESULTS_def
        MAX_PEERS_def s c)
  also have "\<dots> = Inr [\<lparr>book_id = ''B1'', title = ''Rework'', author = ''Author'',
      dewey_decimal = ''005.1'', match_score = 1, recommended_by = [''9'', ''10''],
      fallback = None\<rparr>]"
    by (simp add: enrichAndRank_def numericIdsDb_def example_defs Map_get_def r array_sort_def)
  finally show "getRecommendations (\<lambda>s. s) numericIdsDb ''U1''
      \<lparr>opts_limit = None, opts_minScore = None\<rparr> =
     Inr [\<lparr>book_id = ''B1'', title = ''Rework'', author = ''Author'', dewey_decimal = ''005.1'',
           match_score = 1, recommended_by = [''9'', ''10''], fallback = None\<rparr>]" .
qed




text \<open>
  Claim C6.  For every reader whose read-set is empty, \<open>getRecommendations\<close> returns a
  list in which every entry carries the tag \<open>cold_start_popularity\<close>, match score 0 and
  an empty contributor list.
\<close>

theorem cold_start:
  assumes "getBorrowedBooks d uid = []"
  shows "\<exists>rs. getRecommendations ckey d uid options = Inr rs \<and>
           (\<forall>r \<in> set rs. fallback r = Some ''cold_start_popularity'' \<and>
                          match_score r = 0 \<and> recommended_by r = [])"
proof -
  from assms have "getRecommendations ckey d uid options =
      Inr (coldStartFallback d uid (limitOf options))"
    by (simp add: getRecommendations_def)
  with coldStartFallback_rows show ?thesis by blast
qed

theorem cold_start_witness:
  "getBorrowedBooks exampleDb ''U3'' = [] \<and>
   getRecommendations (\<lambda>s. s) exampleDb ''U3'' \<lparr>opts_limit = Some 2, opts_minScore = None\<rparr> =
     Inr [fallbackRow ''cold_start_popularity'' (exampleBook ''B0'' ''Clean Code'' ''005.1''),
          fallbackRow ''cold_start_popularity'' (exampleBook ''B1'' ''Rework'' ''005.1'')] \<and>
   list_all (\<lambda>r. fallback r = Some ''cold_start_popularity'' \<and> match_score r = 0 \<and>
                  recommended_by r = [])
     [fallbackRow ''cold_start_popularity'' (exampleBook ''B0'' ''Clean Code'' ''005.1''),
      fallbackRow ''cold_start_popularity'' (exampleBook ''B1'' ''Rework'' ''005.1'')]"
proof -
  let ?o = "\<lparr>opts_limit = Some 2, opts_minScore = None\<rparr>"
  let ?rs = "[fallbackRow ''cold_start_popularity'' (exampleBook ''B0'' ''Clean Code'' ''005.1''),
              fallbackRow ''cold_start_popularity'' (exampleBook ''B1'' ''Rework'' ''005.1'')]"
  have "coldStartFallback exampleDb ''U3'' 2 = ?rs"
    by (simp add: coldStartFallback_def example_defs order_by_count_desc_def)
  then have v: "getRecommendations (\<lambda>s. s) exampleDb ''U3'' ?o = Inr ?rs"
    by (simp add: getRecommendations_def example_no_history limitOf_def)
  from cold_start [OF example_no_history, of "\<lambda>s. s" ?o] obtain rs where
    "getRecommendations (\<lambda>s. s) exampleDb ''U3'' ?o = Inr rs"
    "\<forall>r \<in> set rs. fallback r = Some ''cold_start_popularity'' \<and> match_score r = 0 \<and>
                   recommended_by r = []"
    by blast
  with v have "list_all (\<lambda>r. fallback r = Some ''cold_start_popularity'' \<and> match_score r = 0 \<and>
                  recommended_by r = []) ?rs"
    by (simp add: list_all_iff)
  with v example_no_history show ?thesis by blast
qed



text \<open>
  Claim C10.  For every reader with a non-empty read-set, when the peer map is empty (no
  other reader has a loan) \<open>getRecommendations\<close> returns the empty list; no fallback
  runs.
\<close>

theorem no_peers_empty:
  assumes "getBorrowedBooks d uid \<noteq> []"
    and "getAllUserBooks d uid = Inr [] \<or> (\<forall>l \<in> set (loans_table d). loan_user_id l = uid)"
  shows "getRecommendations ckey d uid options = Inr []"
proof -
  from assms(2) have "getAllUserBooks d uid = Inr []" by (auto simp: getAllUserBooks_empty_iff)
  with assms(1) show ?thesis by (simp add: getRecommendations_def)
qed

theorem no_peers_empty_witness:
  "getBorrowedBooks loneReaderDb ''U1'' = [''B0''] \<and>
   getAllUserBooks loneReaderDb ''U1'' = Inr [] \<and>
   getRecommendations (\<lambda>s. s) loneReaderDb ''U1'' \<lparr>opts_limit = None, opts_minScore = None\<rparr> =
     Inr []"
proof -
  have a: "getBorrowedBooks loneReaderDb ''U1'' = [''B0'']"
    by (simp add: getBorrowedBooks_def loneReaderDb_def example_defs new_Set_def add_def has_def)
  have b: "getAllUserBooks loneReaderDb ''U1'' = Inr []"
    by (simp add: getAllUserBooks_def loneReaderDb_def example_defs)
  from a have a': "getBorrowedBooks loneReaderDb ''U1'' \<noteq> []" by simp
  from b have b': "getAllUserBooks loneReaderDb ''U1'' = Inr [] \<or>
      (\<forall>l \<in> set (loans_table loneReaderDb). loan_user_id l = ''U1'')" by simp
  from no_peers_empty [OF a' b', of "\<lambda>s. s" "\<lparr>opts_limit = None, opts_minScore = None\<rparr>"] a b
  show ?thesis by blast
qed

section \<open>Properties of the Reading DNA\<close>

lemma readingRows_empty:
  assumes "uid \<notin> user_id ` set (users_table d) \<or> (\<forall>l \<in> set (loans_table d). loan_user_id l \<noteq> uid)"
  shows "readingRows d uid = []"
proof -
  let ?joined = "[(u, l, b).
           u \<leftarrow> users_table d,
           l \<leftarrow> loans_table d,
           loan_user_id l = user_id u,
           b \<leftarrow> books_table d,
           book_id b = loan_book_id l,
           user_id u = uid]"
  have r: "readingRows d uid =
      map (\<lambda>((u, l, b), book_count). (user_name u, dewey_decimal b, book_count))
        (order_by_count_desc (group_count (\<lambda>(u, l, b). dewey_decimal b) ?joined))"
    by (simp only: readingRows_def Let_def)
  have j: "?joined = []"
    using assms by (auto simp: image_iff)
  show ?thesis
    unfolding r j by (simp add: order_by_count_desc_def)
qed

text \<open>
  Claim C9.  For a reader who is unknown, or has no loans, or whose query otherwise yields
  no rows, \<open>getReadingDNA\<close> returns the same zero-book result: \<open>totalBooks\<close> is 0,
  the breakdown is empty, and nothing in it tells the cases apart.
\<close>

theorem getReadingDNA_no_history:
  assumes "uid \<notin> user_id ` set (users_table d) \<or>
           (\<forall>l \<in> set (loans_table d). loan_user_id l \<noteq> uid) \<or>
           readingRows d uid = []"
  shows "getReadingDNA d uid =
           \<lparr>userId = uid, name = ''Unknown'', totalBooks = 0, breakdown = [],
            summary = ''No reading history found.''\<rparr>"
proof -
  from assms readingRows_empty [of uid d] have "readingRows d uid = []" by blast
  then show ?thesis by (simp add: getReadingDNA_def)
qed

theorem getReadingDNA_no_history_witness:
  "''U9'' \<notin> user_id ` set (users_table exampleDb) \<and>
   getReadingDNA exampleDb ''U9'' =
     \<lparr>userId = ''U9'', name = ''Unknown'', totalBooks = 0, breakdown = [],
      summary = ''No reading history found.''\<rparr> \<and>
   ''U3'' \<in> user_id ` set (users_table exampleDb) \<and>
   list_all (\<lambda>l. loan_user_id l \<noteq> ''U3'') (loans_table exampleDb) \<and>
   getReadingDNA exampleDb ''U3'' =
     \<lparr>userId = ''U3'', name = ''Unknown'', totalBooks = 0, breakdown = [],
      summary = ''No reading history found.''\<rparr>"
proof -
  have a: "''U9'' \<notin> user_id ` set (users_table exampleDb)" by (simp add: example_defs)
  have b: "''U3'' \<in> user_id ` set (users_table exampleDb)" by (simp add: example_defs)
  have c: "\<forall>l \<in> set (loans_table exampleDb). loan_user_id l \<noteq> ''U3''"
    by (simp add: example_defs)
  then have c': "list_all (\<lambda>l. loan_user_id l \<noteq> ''U3'') (loans_table exampleDb)"
    by (simp add: list_all_iff)
  from a have "getReadingDNA exampleDb ''U9'' =
     \<lparr>userId = ''U9'', name = ''Unknown'', totalBooks = 0, breakdown = [],
      summary = ''No reading history found.''\<rparr>"
    by (intro getReadingDNA_no_history) simp
  moreover from c have "getReadingDNA exampleDb ''U3'' =
     \<lparr>userId = ''U3'', name = ''Unknown'', totalBooks = 0, breakdown = [],
      summary = ''No reading history found.''\<rparr>"
    by (intro getReadingDNA_no_history) simp
  ultimately show ?thesis using a b c' by blast
qed

text \<open>The breakdown of reader \<open>U2\<close> of the example store.\<close>

lemma example_reading_dna:
  "getReadingDNA exampleDb ''U2'' =
     \<lparr>userId = ''U2'', name = ''David'', totalBooks = 7,
      breakdown =
        [\<lparr>category = ''Technology & Computer Science'', dewey = ''005.1'', entry_count = 2,
          percentage = ''28.57%''\<rparr>,
         \<lparr>category = ''Business & Management'', dewey = ''658'', entry_count = 1,
          percentage = ''14.29%''\<rparr>,
         \<lparr>category = ''Business & Management'', dewey = ''658.4'', entry_count = 1,
          percentage = ''14.29%''\<rparr>,
         \<lparr>category = ''Cognitive Psychology'', dewey = ''153'', entry_count = 1,
          percentage = ''14.29%''\<rparr>,
         \<lparr>category = ''World History'', dewey = ''909'', entry_count = 1,
          percentage = ''14.29%''\<rparr>,
         \<lparr>category = ''Finance & Economics'', dewey = ''332'', entry_count = 1,
          percentage = ''14.29%''\<rparr>],
      summary = ''28.57% Technology & Computer Science, 14.29% Business & Management, 14.29% Business & Management, 14.29% Cognitive Psychology, 14.29% World History, 14.29% Finance & Economics''\<rparr>"
proof -
  have r: "readingRows exampleDb ''U2'' =
      [(''David'', ''005.1'', 2), (''David'', ''658'', 1), (''David'', ''658.4'', 1),
       (''David'', ''153'', 1), (''David'', ''909'', 1), (''David'', ''332'', 1)]"
    by (simp add: readingRows_def example_defs order_by_count_desc_def)
  have p: "toFixed 2 (fmul (fdiv 2 7) 100) = ''28.57''" "toFixed 2 (fmul (fdiv 1 7) 100) = ''14.29''"
    by (simp_all add: toFixed_def classifier_defs)
  have c: "deweyCategory (codeUnits ''005.1'') = ''Technology & Computer Science''"
    "deweyCategory (codeUnits ''658'') = ''Business & Management''"
    "deweyCategory (codeUnits ''658.4'') = ''Business & Management''"
    "deweyCategory (codeUnits ''153'') = ''Cognitive Psychology''"
    "deweyCategory (codeUnits ''909'') = ''World History''"
    "deweyCategory (codeUnits ''332'') = ''Finance & Economics''"
    by (simp_all add: classifier_defs)
  show ?thesis
    unfolding getReadingDNA_def r by (simp add: p c)
qed

text \<open>
  The percentage is taken of the rounded product: 23 books out of 160 are
  \<open>14.374999999999998\<close> percent as a double, written \<open>14.37\<close>.
\<close>

lemma percentage_rounded:
  "fmul (fdiv 23 160) 100 < 14375 / 1000"
  "toFixed 2 (fmul (fdiv 23 160) 100) = ''14.37''"
  by (simp_all add: toFixed_def classifier_defs)

end
